theory Spec2Isabelle
  imports Complex_Main "HOL-Library.Product_Lexorder" "HOL-Library.AList"
begin

section \<open>Numbers and text shared by the modules\<close>

text \<open>
  Python floats are modelled as exact reals: every arithmetic step of the source is taken
  without rounding error. A point is a pair of coordinates, as the tuples of the source.
\<close>

type_synonym point = "real \<times> real"

text \<open>Python's built-in \<^verbatim>\<open>round(x)\<close> with one argument: to the nearest integer, ties to even.\<close>

definition py_round :: "real \<Rightarrow> int" where
  "py_round x =
     (let f = \<lfloor>x\<rfloor>; r = x - of_int f
      in if r < 1 / 2 then f
         else if 1 / 2 < r then f + 1
         else if even f then f else f + 1)"

definition digit_char :: "nat \<Rightarrow> char" where
  "digit_char d = ''0123456789'' ! d"

text \<open>\<^verbatim>\<open>str(n)\<close> for a natural number: its decimal digits, no leading zero.\<close>

fun str_nat :: "nat \<Rightarrow> string" where
  "str_nat n = (if n < 10 then [digit_char n] else str_nat (n div 10) @ [digit_char (n mod 10)])"

declare str_nat.simps [simp del]

definition str_int :: "int \<Rightarrow> string" where
  "str_int i = (if i < 0 then CHR ''-'' # str_nat (nat (- i)) else str_nat (nat i))"

text \<open>\<^verbatim>\<open>s.rjust(n, "0")\<close> and \<^verbatim>\<open>s.ljust(n, "0")\<close>.\<close>

definition rjust0 :: "nat \<Rightarrow> string \<Rightarrow> string" where
  "rjust0 n s = replicate (n - length s) CHR ''0'' @ s"

definition ljust0 :: "nat \<Rightarrow> string \<Rightarrow> string" where
  "ljust0 n s = s @ replicate (n - length s) CHR ''0''"

text \<open>
  The format specification \<^verbatim>\<open>{x:.nf}\<close>: the value rounded to \<open>n\<close> decimals (ties to even
  on the exact value), a minus sign for a negative value, at least one integer digit.
\<close>

definition fmt_f :: "nat \<Rightarrow> real \<Rightarrow> string" where
  "fmt_f n x =
     (let m = nat (py_round (\<bar>x\<bar> * 10 ^ n));
          ip = m div 10 ^ n;
          fp = m mod 10 ^ n
      in (if x < 0 then ''-'' else '''') @ str_nat ip
         @ (if n = 0 then '''' else ''.'' @ rjust0 n (str_nat fp)))"

definition nl :: string where
  "nl = [CHR 0x0A]"

section \<open>job\_config.py and bitlib.py: the values the emitter reads\<close>

text \<open>
  The settings file is read by \<^verbatim>\<open>job_getfloat\<close>; the record holds the values it returns
  for the keys of section \<^verbatim>\<open>job\<close> that the tool change uses.
\<close>

record job_config =
  travel_z :: real
  toolchange_z :: real
  park_x :: real
  park_y :: real
  spindle_warmup_s :: real

definition get_travel_z :: "job_config \<Rightarrow> real" where
  "get_travel_z cfg = travel_z cfg"

definition get_toolchange_z :: "job_config \<Rightarrow> real" where
  "get_toolchange_z cfg = toolchange_z cfg"

definition get_park_xy :: "job_config \<Rightarrow> real \<times> real" where
  "get_park_xy cfg = (park_x cfg, park_y cfg)"

definition get_spindle_warmup_s :: "job_config \<Rightarrow> real" where
  "get_spindle_warmup_s cfg = max 0 (spindle_warmup_s cfg)"

text \<open>
  A bit is the dictionary built by \<^verbatim>\<open>bit_dict\<close>. The tool change reads \<^verbatim>\<open>rpm\<close> with
  \<^verbatim>\<open>bit.get("rpm", 0)\<close>, so the key may be absent: \<open>None\<close>.
\<close>

record bit =
  name :: string
  diameter :: real
  rpm :: "int option"

section \<open>gcode\_writer.py: the tool-change sequence\<close>

text \<open>
  The output file is the list of the strings written to it, in order; \<^verbatim>\<open>o.write(s)\<close>
  appends one.
\<close>

definition o_write :: "string list \<Rightarrow> string \<Rightarrow> string list" where
  "o_write out s = out @ [s]"

definition toolchange_sequence :: "job_config \<Rightarrow> string list \<Rightarrow> bit \<Rightarrow> string \<Rightarrow> string list" where
  "toolchange_sequence cfg o0 b message =
     (let tc_z = get_toolchange_z cfg;
          (px, py) = get_park_xy cfg;
          o1 = o_write o0 (nl @ ''G0 Z'' @ fmt_f 3 tc_z @ nl);
          o2 = o_write o1 (''M5'' @ nl);
          o3 = o_write o2 (''G0 X'' @ fmt_f 3 px @ '' Y'' @ fmt_f 3 py @ nl);
          o4 = o_write o3 (''; '' @ message @ nl);
          o5 = o_write o4 (''M0'' @ nl);
          r = (case rpm b of None \<Rightarrow> 0 | Some v \<Rightarrow> v);
          o6 = (if 0 < r then o_write o5 (''S'' @ str_int r @ '' M3'' @ nl)
                else o_write o5 (''M3'' @ nl));
          warm = get_spindle_warmup_s cfg;
          o7 = (if 0 < warm then o_write o6 (''G4 P'' @ fmt_f 3 warm @ nl) else o6)
      in o_write o7 (''G0 Z'' @ fmt_f 3 (get_travel_z cfg) @ nl))"

section \<open>gerber\_parser.py and excellon\_parser.py: fixed-point coordinates\<close>

text \<open>
  The tokens that reach the decoders are cut by the regular expressions
  \<^verbatim>\<open>X(-?[\d\.]+)\<close> and \<^verbatim>\<open>Y(-?[\d\.]+)\<close>: an optional minus sign, then digits and points.
  Python's \<^verbatim>\<open>int\<close> and \<^verbatim>\<open>float\<close> are modelled on the strings made of a sign, ASCII
  digits and one decimal point; every other string is a \<open>ValueError\<close> here (underscores,
  exponents, inner white space and non-ASCII digits, which Python also reads, do not occur
  in such tokens).
\<close>

datatype py_exn = ValueError

definition is_digit :: "char \<Rightarrow> bool" where
  "is_digit c \<longleftrightarrow> c \<in> set ''0123456789''"

definition digit_val :: "char \<Rightarrow> nat" where
  "digit_val c = length (takeWhile (\<lambda>d. d \<noteq> c) ''0123456789'')"

definition digits_val :: "string \<Rightarrow> nat" where
  "digits_val s = foldl (\<lambda>a c. 10 * a + digit_val c) 0 s"

text \<open>A leading sign and the rest of the string.\<close>

definition split_sign :: "string \<Rightarrow> bool \<times> string" where
  "split_sign s =
     (case s of
        [] \<Rightarrow> (False, s)
      | c # r \<Rightarrow> if c = CHR ''-'' then (True, r) else if c = CHR ''+'' then (False, r) else (False, s))"

definition py_int :: "string \<Rightarrow> py_exn + int" where
  "py_int s =
     (case split_sign s of (neg, body) \<Rightarrow>
        if body \<noteq> [] \<and> (\<forall>c \<in> set body. is_digit c)
        then Inr (if neg then - int (digits_val body) else int (digits_val body))
        else Inl ValueError)"

definition py_float :: "string \<Rightarrow> py_exn + real" where
  "py_float s =
     (case split_sign s of (neg, body) \<Rightarrow>
        let ip = takeWhile is_digit body;
            rest = dropWhile is_digit body
        in case rest of
             [] \<Rightarrow> if ip \<noteq> [] then Inr (if neg then - real (digits_val ip) else real (digits_val ip))
                   else Inl ValueError
           | c # fp \<Rightarrow>
               if c = CHR ''.'' \<and> (\<forall>c \<in> set fp. is_digit c) \<and> (ip \<noteq> [] \<or> fp \<noteq> [])
               then
                 let v = real (digits_val ip) + real (digits_val fp) / 10 ^ length fp
                 in Inr (if neg then - v else v)
               else Inl ValueError)"

text \<open>\<^verbatim>\<open>s.strip()\<close>: white space removed at both ends.\<close>

definition is_space :: "char \<Rightarrow> bool" where
  "is_space c \<longleftrightarrow>
     c \<in> set [CHR '' '', CHR 0x09, CHR 0x0A, CHR 0x0B, CHR 0x0C, CHR 0x0D,
               CHR 0x1C, CHR 0x1D, CHR 0x1E, CHR 0x1F]"

definition strip :: "string \<Rightarrow> string" where
  "strip s = rev (dropWhile is_space (rev (dropWhile is_space s)))"

text \<open>
  \<^verbatim>\<open>_parse_rs274x_coord(tok, int_d=..., dec_d=..., zero_mode=...)\<close>. The token may be
  \<^verbatim>\<open>None\<close>; \<^verbatim>\<open>zero_mode.upper() == "L"\<close> holds for \<open>L\<close> and \<open>l\<close>.
\<close>

definition parse_rs274x_coord :: "string option \<Rightarrow> int \<Rightarrow> int \<Rightarrow> string \<Rightarrow> py_exn + real" where
  "parse_rs274x_coord tok_opt int_d dec_d zero_mode =
     (case tok_opt of
        None \<Rightarrow> Inr 0
      | Some raw \<Rightarrow>
          let tok = strip raw
          in if tok = [] then Inr 0
             else if CHR ''.'' \<in> set tok then py_float tok
             else
               let neg = (hd tok = CHR ''-'');
                   tok_digits = (if neg then tl tok else tok);
                   total = (if int_d + dec_d \<le> 0 then max 1 (int (length tok_digits))
                            else int_d + dec_d);
                   tok_digits = (if total < int (length tok_digits)
                                 then drop (length tok_digits - nat total) tok_digits
                                 else tok_digits);
                   tok_digits = (if int (length tok_digits) < total
                                 then if zero_mode = ''L'' \<or> zero_mode = ''l''
                                      then rjust0 (nat total) tok_digits
                                      else ljust0 (nat total) tok_digits
                                 else tok_digits)
               in if dec_d \<le> 0 then
                    (case py_int tok_digits of
                       Inl e \<Rightarrow> Inl e
                     | Inr v \<Rightarrow> Inr (if neg then - real_of_int v else real_of_int v))
                  else
                    let ip = (if 0 < int_d then take (nat int_d) tok_digits else ''0'');
                        fp = (if 0 < int_d then drop (nat int_d) tok_digits else tok_digits);
                        ip = (if ip = [] then ''0'' else ip)
                    in case py_int ip of
                         Inl e \<Rightarrow> Inl e
                       | Inr n \<Rightarrow>
                           (case py_float (str_int n @ ''.'' @ fp) of
                              Inl e \<Rightarrow> Inl e
                            | Inr v \<Rightarrow> Inr (if neg then - v else v)))"

text \<open>The fields of \<^verbatim>\<open>ExcellonFile\<close> that \<^verbatim>\<open>_parse_fixed\<close> reads.\<close>

record excellon_file =
  zero_suppression :: string
  format :: "int \<times> int"

definition parse_fixed :: "excellon_file \<Rightarrow> string option \<Rightarrow> py_exn + real" where
  "parse_fixed self token_opt =
     (case token_opt of
        None \<Rightarrow> Inr 0
      | Some raw \<Rightarrow>
          let token = strip raw
          in if token = [] then Inr 0
             else if CHR ''.'' \<in> set token then py_float token
             else
               let neg = (hd token = CHR ''-'');
                   s = (if neg then tl token else token);
                   int_d = fst (format self);
                   dec_d = snd (format self);
                   total = (if int_d + dec_d \<le> 0 then max 1 (int (length s)) else int_d + dec_d);
                   s = (if total < int (length s) then drop (length s - nat total) s else s);
                   s = (if int (length s) < total
                        then if zero_suppression self = ''leading''
                             then rjust0 (nat total) s
                             else ljust0 (nat total) s
                        else s)
               in if dec_d \<le> 0 then
                    (case py_int s of
                       Inl e \<Rightarrow> Inl e
                     | Inr v \<Rightarrow> Inr (if neg then - real_of_int v else real_of_int v))
                  else
                    let ip = (if 0 < int_d then take (nat int_d) s else ''0'');
                        fp = (if 0 < int_d then drop (nat int_d) s else s);
                        ip = (if ip = [] then ''0'' else ip)
                    in case py_int ip of
                         Inl e \<Rightarrow> Inl e
                       | Inr n \<Rightarrow>
                           (case py_float (str_int n @ ''.'' @ fp) of
                              Inl e \<Rightarrow> Inl e
                            | Inr v \<Rightarrow> Inr (if neg then - v else v)))"

section \<open>drilling.py: assigning holes to drills\<close>

text \<open>The slack \<^verbatim>\<open>1e-9\<close> that both planners add to \<^verbatim>\<open>hole + tol\<close>.\<close>

definition eps :: real where
  "eps = 1 / 10 ^ 9"

text \<open>
  The inner loop of \<^verbatim>\<open>_assign_holes_to_drills\<close> over \<^verbatim>\<open>enumerate(ds)\<close>: \<open>pick\<close> is the
  index of the drill picked so far (the source keeps the drill object \<^verbatim>\<open>drills[i]\<close>), and
  the loop stops at the first diameter above the limit.
\<close>

fun pick_loop :: "real \<Rightarrow> (nat \<times> real) list \<Rightarrow> nat option \<Rightarrow> nat option" where
  "pick_loop limit [] pick = pick"
| "pick_loop limit ((i, d) # rest) pick =
     (if d \<le> limit + eps then pick_loop limit rest (Some i) else pick)"

datatype assign_error = NoDrillBits | NoDrillFor real real

text \<open>
  The loop over the holes. \<open>assigned\<close> is the dictionary from a drill to its hole centres and
  \<open>used\<close> the set of drills that got a hole; a drill object is named by its position in the
  sorted list \<open>drills\<close>, where the source uses \<^verbatim>\<open>id(b)\<close>.
\<close>

fun assign_loop ::
  "real \<Rightarrow> real list \<Rightarrow> (real \<times> real \<times> real) list \<Rightarrow> point list list \<Rightarrow> nat set
     \<Rightarrow> assign_error + (point list list \<times> nat set)" where
  "assign_loop tol ds [] assigned used = Inr (assigned, used)"
| "assign_loop tol ds ((x, y, h) # holes) assigned used =
     (case pick_loop (h + tol) (enumerate 0 ds) None of
        None \<Rightarrow> Inl (NoDrillFor h tol)
      | Some i \<Rightarrow> assign_loop tol ds holes (assigned[i := assigned ! i @ [(x, y)]]) (insert i used))"

text \<open>\<^verbatim>\<open>sorted(xs, key=k, reverse=True)\<close>: descending, equal keys in their original order.\<close>

definition sorted_reverse :: "('a \<Rightarrow> 'k::linorder) \<Rightarrow> 'a list \<Rightarrow> 'a list" where
  "sorted_reverse k xs = rev (sort_key k (rev xs))"

definition assign_holes_to_drills ::
  "(real \<times> real \<times> real) list \<Rightarrow> bit list \<Rightarrow> real
     \<Rightarrow> assign_error + (bit \<times> point list) list" where
  "assign_holes_to_drills holes drill_bits tol =
     (let drills = sort_key diameter (filter (\<lambda>b. 0 < diameter b) drill_bits)
      in if drills = [] then Inl NoDrillBits
         else
           let ds = map diameter drills
           in case assign_loop tol ds holes (replicate (length drills) []) {} of
                Inl e \<Rightarrow> Inl e
              | Inr (assigned, used) \<Rightarrow>
                  Inr (map (\<lambda>i. (drills ! i, assigned ! i))
                        (sorted_reverse (\<lambda>i. ds ! i)
                           (filter (\<lambda>i. i \<in> used) [0..<length drills]))))"

section \<open>ui/main\_window.py: the drill planner\<close>

text \<open>
  \<^verbatim>\<open>best_drill_index_for\<close>: the index of the chosen drill, \<open>-1\<close> when there is none.
  Indices outside \<open>allowed_idx\<close> (when it is given) are skipped before the comparison, so
  they never stop the loop.
\<close>

fun best_drill_loop :: "real \<Rightarrow> int set option \<Rightarrow> (nat \<times> real) list \<Rightarrow> int \<Rightarrow> int" where
  "best_drill_loop limit allowed_idx [] best = best"
| "best_drill_loop limit allowed_idx ((i, d) # rest) best =
     (if allowed_idx \<noteq> None \<and> int i \<notin> the allowed_idx
      then best_drill_loop limit allowed_idx rest best
      else if d \<le> limit + eps then best_drill_loop limit allowed_idx rest (int i)
      else best)"

definition best_drill_index_for :: "real list \<Rightarrow> real \<Rightarrow> real \<Rightarrow> int set option \<Rightarrow> int" where
  "best_drill_index_for ds tol h allowed_idx =
     best_drill_loop (h + tol) allowed_idx (enumerate 0 ds) (- 1)"

datatype plan_status = Ok | Error

text \<open>The message of the planner, with the numbers it prints instead of the formatted text.\<close>

datatype plan_msg =
    NoSmallHoles
  | NoDrillBitsAvailable
  | SmallestDrillTooLarge real
  | OverCap int
  | PlannedDrills "bit list"

record plan_result =
  status :: plan_status
  planned :: "bit list"
  counts :: "(real \<times> nat) list"
  msg :: "plan_msg list"

datatype py_error = KeyError

text \<open>\<^verbatim>\<open>holes_by[di]\<close>: the diameters of the holes currently assigned to drill \<open>di\<close>.\<close>

definition holes_by :: "real list \<Rightarrow> int list \<Rightarrow> int \<Rightarrow> real list" where
  "holes_by hole_ds assign_idx di = map fst (filter (\<lambda>(h, i). i = di) (zip hole_ds assign_idx))"

text \<open>The drills of \<open>used\<close> whose holes all find another used drill.\<close>

definition droppable_of :: "real list \<Rightarrow> real \<Rightarrow> real list \<Rightarrow> int list \<Rightarrow> int list \<Rightarrow> int list" where
  "droppable_of ds tol hole_ds used assign_idx =
     filter (\<lambda>di. \<forall>h \<in> set (holes_by hole_ds assign_idx di).
                    \<not> best_drill_index_for ds tol h (Some (set used - {di})) < 0) used"

text \<open>
  \<^verbatim>\<open>droppable.sort(key=lambda i: (holes_cnt.get(i, 0), ds[i])); drop = droppable[0]\<close>, where
  \<^verbatim>\<open>holes_cnt[i]\<close> counts the occurrences of \<open>i\<close> in \<open>assign_idx\<close>.
\<close>

definition drop_choice :: "real list \<Rightarrow> int list \<Rightarrow> int list \<Rightarrow> int" where
  "drop_choice ds assign_idx droppable =
     hd (sort_key (\<lambda>i. (count_list assign_idx i, ds ! nat i)) droppable)"

definition reassign :: "real list \<Rightarrow> real \<Rightarrow> real list \<Rightarrow> int list \<Rightarrow> int \<Rightarrow> int list \<Rightarrow> int list" where
  "reassign ds tol hole_ds used dropped assign_idx =
     map (\<lambda>(h, i). if i = dropped then best_drill_index_for ds tol h (Some (set used)) else i)
       (zip hole_ds assign_idx)"

lemma drop_choice_in_used:
  assumes "droppable_of ds tol hole_ds used assign_idx \<noteq> []"
  shows "drop_choice ds assign_idx (droppable_of ds tol hole_ds used assign_idx) \<in> set used"
proof -
  let ?dr = "droppable_of ds tol hole_ds used assign_idx"
  let ?k = "\<lambda>i. (count_list assign_idx i, ds ! nat i)"
  have ne: "sort_key ?k ?dr \<noteq> []"
    using assms by (metis length_0_conv length_sort)
  have "hd (sort_key ?k ?dr) \<in> set (sort_key ?k ?dr)"
    using ne by (rule hd_in_set)
  then have "hd (sort_key ?k ?dr) \<in> set ?dr"
    by simp
  then show ?thesis
    by (simp add: drop_choice_def droppable_of_def)
qed

text \<open>
  The \<^verbatim>\<open>while len(used) > max_bits\<close> loop. \<open>Inl (Inl KeyError)\<close> is the exception of
  \<^verbatim>\<open>holes_by[i].append(hd)\<close> for an index that is not a key; \<open>Inl (Inr used)\<close> is the early
  return when nothing is droppable; \<open>Inr\<close> is the normal exit of the loop.
\<close>

function reduce_loop ::
  "real list \<Rightarrow> real \<Rightarrow> real list \<Rightarrow> int \<Rightarrow> int list \<Rightarrow> int list
     \<Rightarrow> (py_error + int list) + (int list \<times> int list)" where
  "reduce_loop ds tol hole_ds max_bits used assign_idx =
     (if max_bits < int (length used) then
        if \<exists>i \<in> set assign_idx. i \<notin> set used then Inl (Inl KeyError)
        else
          let droppable = droppable_of ds tol hole_ds used assign_idx
          in if droppable = [] then Inl (Inr used)
             else
               let dropped = drop_choice ds assign_idx droppable;
                   used' = remove1 dropped used
               in reduce_loop ds tol hole_ds max_bits used'
                    (reassign ds tol hole_ds used' dropped assign_idx)
      else Inr (used, assign_idx))"
  by pat_completeness auto

termination
proof (relation "measure (\<lambda>(ds, tol, hole_ds, max_bits, used, assign_idx). length used)")
  show "wf (measure (\<lambda>(ds, tol, hole_ds, max_bits, used, assign_idx). length used))"
    by simp
next
  fix ds tol hole_ds max_bits used assign_idx x xa xb
  assume "x = droppable_of ds tol hole_ds used assign_idx" "x \<noteq> []"
    "xa = drop_choice ds assign_idx x" "xb = remove1 xa used"
  then have "xa \<in> set used"
    using drop_choice_in_used by simp
  then have "length (remove1 xa used) < length used"
    using length_pos_if_in_set [of xa used] by (simp add: length_remove1)
  then show "((ds, tol, hole_ds, max_bits, xb, reassign ds tol hole_ds xb xa assign_idx),
              (ds, tol, hole_ds, max_bits, used, assign_idx))
             \<in> measure (\<lambda>(ds, tol, hole_ds, max_bits, used, assign_idx). length used)"
    using \<open>xb = remove1 xa used\<close> by simp
qed

declare reduce_loop.simps [simp del]

text \<open>
  \<^verbatim>\<open>counts\<close>: a dictionary from a diameter to a number of holes, in insertion order.
\<close>

definition counts_of :: "real list \<Rightarrow> int list \<Rightarrow> int list \<Rightarrow> (real \<times> nat) list" where
  "counts_of ds used assign_idx =
     fold (\<lambda>i c. AList.update (ds ! nat i) (case map_of c (ds ! nat i) of None \<Rightarrow> 1 | Some n \<Rightarrow> n + 1) c)
       assign_idx
       (fold (\<lambda>i c. AList.update (ds ! nat i) 0 c) used [])"

definition plan_drills_for_holes ::
  "real list \<Rightarrow> bit list \<Rightarrow> real \<Rightarrow> int \<Rightarrow> py_error + plan_result" where
  "plan_drills_for_holes hole_ds candidate_bits tol max_bits =
     (if hole_ds = [] then
        Inr \<lparr>status = Ok, planned = [], counts = [], msg = [NoSmallHoles]\<rparr>
      else if candidate_bits = [] then
        Inr \<lparr>status = Error, planned = [], counts = [], msg = [NoDrillBitsAvailable]\<rparr>
      else
        let drills = sort_key diameter candidate_bits;
            ds = map diameter drills;
            assign_idx = map (\<lambda>h. best_drill_index_for ds tol h None) hole_ds
        in if \<exists>i \<in> set assign_idx. i < 0 then
             let bad = map fst (filter (\<lambda>(h, i). i < 0) (zip hole_ds assign_idx))
             in Inr \<lparr>status = Error, planned = [], counts = [],
                     msg = [SmallestDrillTooLarge (min_list bad)]\<rparr>
           else
             let used = sort (remdups (filter (\<lambda>i. 0 \<le> i) assign_idx))
             in case reduce_loop ds tol hole_ds max_bits used assign_idx of
                  Inl (Inl e) \<Rightarrow> Inl e
                | Inl (Inr used') \<Rightarrow>
                    Inr \<lparr>status = Error, planned = map (\<lambda>i. drills ! nat i) used', counts = [],
                         msg = [OverCap max_bits]\<rparr>
                | Inr (used', assign_idx') \<Rightarrow>
                    let planned = sorted_reverse diameter (map (\<lambda>i. drills ! nat i) used')
                    in Inr \<lparr>status = Ok, planned = planned,
                            counts = counts_of ds used' assign_idx',
                            msg = [PlannedDrills planned]\<rparr>)"

section \<open>excellon\_parser.py: de-duplication of holes\<close>

text \<open>A hole is the tuple \<^verbatim>\<open>(x, y, d_mm)\<close>.\<close>

type_synonym hole = "real \<times> real \<times> real"

text \<open>\<^verbatim>\<open>round(x, 6)\<close>: to six decimals, ties to even.\<close>

definition round6 :: "real \<Rightarrow> real" where
  "round6 x = of_int (py_round (x * 10 ^ 6)) / 10 ^ 6"

text \<open>
  The branch for \<^verbatim>\<open>tol_xy <= 0\<close>: the dictionary \<open>best\<close> from the rounded centre to the
  hole kept there, in insertion order.
\<close>

definition best_step :: "((real \<times> real) \<times> hole) list \<Rightarrow> hole \<Rightarrow> ((real \<times> real) \<times> hole) list" where
  "best_step best h =
     (case h of (x, y, d) \<Rightarrow>
        let key = (round6 x, round6 y)
        in case map_of best key of
             None \<Rightarrow> AList.update key (x, y, d) best
           | Some (x2, y2, d2) \<Rightarrow> if d2 < d then AList.update key (x, y, d) best else best)"

text \<open>\<^verbatim>\<open>cell(x, y)\<close>, with \<^verbatim>\<open>inv = 1.0 / tol_xy\<close>.\<close>

definition cell :: "real \<Rightarrow> real \<Rightarrow> real \<Rightarrow> int \<times> int" where
  "cell inv_t x y = (py_round (x * inv_t), py_round (y * inv_t))"

text \<open>
  The indices that the three nested loops visit, in their order: the nine cells around
  \<open>(ix, iy)\<close> with \<open>dx\<close> outermost, and in each cell its list of indices.
\<close>

definition neighbour_indices :: "(int \<times> int \<rightharpoonup> nat list) \<Rightarrow> int \<Rightarrow> int \<Rightarrow> nat list" where
  "neighbour_indices grid ix iy =
     concat (map (\<lambda>c. case grid c of None \<Rightarrow> [] | Some lst \<Rightarrow> lst)
       (concat (map (\<lambda>dx. map (\<lambda>dy. (ix + dx, iy + dy)) [- 1, 0, 1]) [- 1, 0, 1])))"

text \<open>\<open>found\<close>: the first visited index whose hole is within the tolerance; the loops stop there.\<close>

definition find_near :: "real \<Rightarrow> (int \<times> int \<rightharpoonup> nat list) \<Rightarrow> hole list \<Rightarrow> int \<Rightarrow> int \<Rightarrow> real \<Rightarrow> real \<Rightarrow> nat option" where
  "find_near r2 grid out ix iy x y =
     find (\<lambda>idx. case out ! idx of (x2, y2, d2) \<Rightarrow>
             (x - x2) * (x - x2) + (y - y2) * (y - y2) \<le> r2)
       (neighbour_indices grid ix iy)"

text \<open>One iteration of the loop over the holes; the state is \<open>(grid, out)\<close>.\<close>

definition dedupe_step ::
  "real \<Rightarrow> real \<Rightarrow> (int \<times> int \<rightharpoonup> nat list) \<times> hole list \<Rightarrow> hole
     \<Rightarrow> (int \<times> int \<rightharpoonup> nat list) \<times> hole list" where
  "dedupe_step r2 inv_t st h =
     (case (st, h) of ((grid, out), (x, y, d)) \<Rightarrow>
        case cell inv_t x y of (ix, iy) \<Rightarrow>
          case find_near r2 grid out ix iy x y of
            None \<Rightarrow>
              (grid((ix, iy) \<mapsto> (case grid (ix, iy) of None \<Rightarrow> [] | Some lst \<Rightarrow> lst) @ [length out]),
               out @ [(x, y, d)])
          | Some found \<Rightarrow>
              (case out ! found of (x2, y2, d2) \<Rightarrow>
                 if d2 < d then (grid, out[found := (x, y, d)]) else (grid, out)))"

definition dedupe_holes_by_xy :: "hole list \<Rightarrow> real \<Rightarrow> hole list" where
  "dedupe_holes_by_xy holes tol_xy =
     (if holes = [] then []
      else if tol_xy \<le> 0 then map snd (foldl best_step [] holes)
      else snd (foldl (dedupe_step (tol_xy * tol_xy) (1 / tol_xy)) (Map.empty, []) holes))"

section \<open>board\_outline.py: tabs and the walk along the outline\<close>










section \<open>geom\_utils.py: nearest-neighbour ordering of polylines\<close>

text \<open>
  A \<^verbatim>\<open>LineString\<close> is the list of its coordinates; an empty one has none. An entry of the
  input list may be \<^verbatim>\<open>None\<close>.
\<close>

type_synonym linestring = "point list"

definition dist2 :: "point \<Rightarrow> point \<Rightarrow> real" where
  "dist2 a b = (fst a - fst b) * (fst a - fst b) + (snd a - snd b) * (snd a - snd b)"

text \<open>\<^verbatim>\<open>d < best_d2\<close>, where \<open>best_d2\<close> starts as \<^verbatim>\<open>float("inf")\<close>: \<open>None\<close>.\<close>

definition below :: "real \<Rightarrow> real option \<Rightarrow> bool" where
  "below d best_d2 = (case best_d2 of None \<Rightarrow> True | Some b \<Rightarrow> d < b)"

text \<open>
  The \<^verbatim>\<open>for i, ls in enumerate(remaining)\<close> loop; the state is
  \<open>(best_i, best_flip, best_d2)\<close>.
\<close>

fun scan_lines ::
  "bool \<Rightarrow> point \<Rightarrow> (nat \<times> linestring) list \<Rightarrow> nat \<times> bool \<times> real option
     \<Rightarrow> nat \<times> bool \<times> real option" where
  "scan_lines allow_reverse cur [] st = st"
| "scan_lines allow_reverse cur ((i, ls) # rest) st =
     (let d2s = dist2 cur (hd ls);
          st1 = (if below d2s (snd (snd st)) then (i, False, Some d2s) else st);
          d2e = dist2 cur (last ls);
          st2 = (if allow_reverse \<and> below d2e (snd (snd st1)) then (i, True, Some d2e) else st1)
      in scan_lines allow_reverse cur rest st2)"

lemma scan_lines_index:
  "fst st < n \<Longrightarrow> \<forall>(i, ls) \<in> set xs. i < n \<Longrightarrow> fst (scan_lines allow_reverse cur xs st) < n"
  by (induction allow_reverse cur xs st rule: scan_lines.induct) (auto simp: Let_def)

text \<open>
  The \<^verbatim>\<open>while remaining\<close> loop: \<^verbatim>\<open>remaining.pop(best_i)\<close>, the reversal, and the new
  cursor at the end of the placed polyline.
\<close>

function order_loop :: "bool \<Rightarrow> point \<Rightarrow> linestring list \<Rightarrow> linestring list \<Rightarrow> linestring list" where
  "order_loop allow_reverse cur remaining ordered =
     (if remaining = [] then ordered
      else
        let st = scan_lines allow_reverse cur (enumerate 0 remaining) (0, False, None);
            best_i = fst st;
            best_flip = fst (snd st);
            pick = (if best_flip then rev (remaining ! best_i) else remaining ! best_i)
        in order_loop allow_reverse (last pick)
             (take best_i remaining @ drop (Suc best_i) remaining) (ordered @ [pick]))"
  by pat_completeness auto
termination
proof (relation "measure (\<lambda>(allow_reverse, cur, remaining, ordered). length remaining)")
  show "wf (measure (\<lambda>(allow_reverse, cur, remaining, ordered). length remaining))"
    by simp
next
  fix allow_reverse :: bool and cur :: point and remaining ordered :: "linestring list"
    and x :: "nat \<times> bool \<times> real option" and xa :: nat and xb :: bool and xc :: linestring
  assume ne: "remaining \<noteq> []"
    and x: "x = scan_lines allow_reverse cur (enumerate 0 remaining) (0, False, None)"
    and xa: "xa = fst x"
  have "fst (scan_lines allow_reverse cur (enumerate 0 remaining) (0, False, None)) < length remaining"
    using ne by (intro scan_lines_index) (auto simp: in_set_enumerate_eq)
  then have "xa < length remaining" using x xa by simp
  then show "((allow_reverse, last xc, take xa remaining @ drop (Suc xa) remaining, ordered @ [xc]),
              (allow_reverse, cur, remaining, ordered))
             \<in> measure (\<lambda>(allow_reverse, cur, remaining, ordered). length remaining)"
    by simp
qed

declare order_loop.simps [simp del]

definition order_lines_nearest :: "linestring option list \<Rightarrow> point \<Rightarrow> bool \<Rightarrow> linestring list" where
  "order_lines_nearest lines start_xy allow_reverse =
     (if lines = [] then []
      else
        let remaining = concat (map (\<lambda>l. case l of None \<Rightarrow> []
                          | Some ls \<Rightarrow> if ls \<noteq> [] \<and> 2 \<le> length ls then [ls] else []) lines)
        in if remaining = [] then [] else order_loop allow_reverse start_xy remaining [])"

section \<open>Properties of the drill index search\<close>

lemma eps_pos: "0 < eps"
  by (simp add: eps_def)

lemma bdl_nonneg: "0 \<le> best \<Longrightarrow> 0 \<le> best_drill_loop limit A xs best"
  by (induction limit A xs best rule: best_drill_loop.induct) auto

lemma bdl_result_None:
  "best_drill_loop limit None xs best = r \<Longrightarrow>
   r = best \<or> (\<exists>(i, d) \<in> set xs. r = int i \<and> d \<le> limit + eps)"
  by (induction limit "None :: int set option" xs best rule: best_drill_loop.induct)
     (auto split: if_splits)

lemma bdl_result_Some:
  "best_drill_loop limit (Some A) xs best = r \<Longrightarrow>
   r = best \<or> (\<exists>(i, d) \<in> set xs. r = int i \<and> d \<le> limit + eps \<and> int i \<in> A)"
  by (induction limit "Some A" xs best rule: best_drill_loop.induct)
     (auto split: if_splits)

lemma bdl_None_neg:
  assumes neg: "best_drill_loop limit None ((i, d) # rest) best < 0"
  shows "limit + eps < d"
proof (rule ccontr)
  assume "\<not> limit + eps < d"
  then have "best_drill_loop limit None ((i, d) # rest) best = best_drill_loop limit None rest (int i)"
    by simp
  moreover have "0 \<le> best_drill_loop limit None rest (int i)"
    by (rule bdl_nonneg) simp
  ultimately show False using neg by simp
qed

lemma bdl_allowed_pos:
  "\<forall>(i, d) \<in> set xs. int i \<in> A \<longrightarrow> d \<le> limit + eps \<Longrightarrow>
   0 \<le> best \<or> (\<exists>(i, d) \<in> set xs. int i \<in> A) \<Longrightarrow>
   0 \<le> best_drill_loop limit (Some A) xs best"
proof (induction limit "Some A" xs best rule: best_drill_loop.induct)
  case (1 limit best)
  then show ?case by simp
next
  case (2 limit i d rest best)
  show ?case
  proof (cases "int i \<in> A")
    case True
    then have "d \<le> limit + eps" using 2(3) by simp
    moreover have "0 \<le> best_drill_loop limit (Some A) rest (int i)"
      by (rule bdl_nonneg) simp
    ultimately show ?thesis using True by simp
  next
    case False
    have a: "\<forall>(i, d) \<in> set rest. int i \<in> A \<longrightarrow> d \<le> limit + eps"
      using 2(3) by simp
    have b: "0 \<le> best \<or> (\<exists>(i, d) \<in> set rest. int i \<in> A)"
      using 2(4) False by simp
    have "0 \<le> best_drill_loop limit (Some A) rest best"
      using 2(1) False a b by simp
    then show ?thesis using False by simp
  qed
qed

lemma best_index_Some:
  assumes "\<not> best_drill_index_for ds tol h (Some A) < 0"
  shows "best_drill_index_for ds tol h (Some A) \<in> A
         \<and> nat (best_drill_index_for ds tol h (Some A)) < length ds
         \<and> ds ! nat (best_drill_index_for ds tol h (Some A)) \<le> h + tol + eps"
proof -
  let ?r = "best_drill_index_for ds tol h (Some A)"
  have "?r = - 1 \<or> (\<exists>(i, d) \<in> set (enumerate 0 ds). ?r = int i \<and> d \<le> h + tol + eps \<and> int i \<in> A)"
    unfolding best_drill_index_for_def by (rule bdl_result_Some) simp
  then obtain i d where "(i, d) \<in> set (enumerate 0 ds)" "?r = int i" "d \<le> h + tol + eps" "int i \<in> A"
    using assms by auto
  then show ?thesis by (auto simp: in_set_enumerate_eq)
qed

lemma best_index_None:
  assumes "\<not> best_drill_index_for ds tol h None < 0"
  shows "nat (best_drill_index_for ds tol h None) < length ds
         \<and> ds ! nat (best_drill_index_for ds tol h None) \<le> h + tol + eps"
proof -
  let ?r = "best_drill_index_for ds tol h None"
  have "?r = - 1 \<or> (\<exists>(i, d) \<in> set (enumerate 0 ds). ?r = int i \<and> d \<le> h + tol + eps)"
    unfolding best_drill_index_for_def by (rule bdl_result_None) simp
  then obtain i d where "(i, d) \<in> set (enumerate 0 ds)" "?r = int i" "d \<le> h + tol + eps"
    using assms by auto
  then show ?thesis by (auto simp: in_set_enumerate_eq)
qed

lemma best_index_None_neg:
  assumes s: "sorted ds" and neg: "best_drill_index_for ds tol h None < 0" and d: "d \<in> set ds"
  shows "h + tol + eps < d"
proof (cases ds)
  case Nil
  then show ?thesis using d by simp
next
  case (Cons d0 rest)
  have "enumerate 0 ds = (0, d0) # enumerate 1 rest"
    using Cons by simp
  then have "h + tol + eps < d0"
    using neg bdl_None_neg [of "h + tol" 0 d0 "enumerate 1 rest" "- 1"]
    by (simp add: best_drill_index_for_def)
  moreover have "d0 \<le> d" using s d Cons by auto
  ultimately show ?thesis by simp
qed

text \<open>
  The invariant of the \<^verbatim>\<open>while\<close> loop: every hole is assigned to a drill of \<open>used\<close> that is
  within the limit of the hole, and \<open>used\<close> holds distinct indices into \<open>ds\<close>.
\<close>

definition plan_inv :: "real list \<Rightarrow> real \<Rightarrow> real list \<Rightarrow> int list \<Rightarrow> int list \<Rightarrow> bool" where
  "plan_inv ds tol hole_ds used assign_idx \<longleftrightarrow>
     distinct used \<and> length assign_idx = length hole_ds
     \<and> (\<forall>u \<in> set used. 0 \<le> u \<and> nat u < length ds)
     \<and> (\<forall>k < length hole_ds. assign_idx ! k \<in> set used
            \<and> ds ! nat (assign_idx ! k) \<le> hole_ds ! k + tol + eps)"

lemma holes_by_iff:
  "h \<in> set (holes_by hole_ds assign_idx di) \<longleftrightarrow>
   (\<exists>k. k < length hole_ds \<and> k < length assign_idx \<and> hole_ds ! k = h \<and> assign_idx ! k = di)"
proof
  assume "h \<in> set (holes_by hole_ds assign_idx di)"
  then show "\<exists>k. k < length hole_ds \<and> k < length assign_idx \<and> hole_ds ! k = h \<and> assign_idx ! k = di"
    by (auto simp: holes_by_def in_set_zip)
next
  assume "\<exists>k. k < length hole_ds \<and> k < length assign_idx \<and> hole_ds ! k = h \<and> assign_idx ! k = di"
  then obtain k where k: "k < length hole_ds" "k < length assign_idx" "hole_ds ! k = h" "assign_idx ! k = di"
    by blast
  then have "(h, di) \<in> set (zip hole_ds assign_idx)"
    by (auto simp: set_zip)
  then have "(h, di) \<in> set (filter (\<lambda>(h, i). i = di) (zip hole_ds assign_idx))"
    by simp
  then have "fst (h, di) \<in> fst ` set (filter (\<lambda>(h, i). i = di) (zip hole_ds assign_idx))"
    by (rule imageI)
  then show "h \<in> set (holes_by hole_ds assign_idx di)"
    by (simp add: holes_by_def)
qed

lemma reassign_nth:
  assumes "k < length hole_ds" "length assign_idx = length hole_ds"
  shows "reassign ds tol hole_ds used dr assign_idx ! k =
         (if assign_idx ! k = dr then best_drill_index_for ds tol (hole_ds ! k) (Some (set used))
          else assign_idx ! k)"
  using assms by (simp add: reassign_def)

lemma reassign_length:
  "length assign_idx = length hole_ds \<Longrightarrow> length (reassign ds tol hole_ds used dr assign_idx) = length hole_ds"
  by (simp add: reassign_def)

lemma droppable_subset: "set (droppable_of ds tol hole_ds used assign_idx) \<subseteq> set used"
  by (auto simp: droppable_of_def)

lemma reassign_inv:
  assumes inv: "plan_inv ds tol hole_ds used assign_idx"
    and dr: "dr \<in> set (droppable_of ds tol hole_ds used assign_idx)"
  shows "plan_inv ds tol hole_ds (remove1 dr used) (reassign ds tol hole_ds (remove1 dr used) dr assign_idx)"
proof -
  let ?used' = "remove1 dr used"
  let ?as' = "reassign ds tol hole_ds ?used' dr assign_idx"
  have dist: "distinct used" and len: "length assign_idx = length hole_ds"
    and rng: "\<forall>u \<in> set used. 0 \<le> u \<and> nat u < length ds"
    and asg: "\<forall>k < length hole_ds. assign_idx ! k \<in> set used
                \<and> ds ! nat (assign_idx ! k) \<le> hole_ds ! k + tol + eps"
    using inv by (simp_all add: plan_inv_def)
  have set': "set ?used' = set used - {dr}"
    using dist by simp
  have drop_ok: "\<forall>h \<in> set (holes_by hole_ds assign_idx dr).
                   \<not> best_drill_index_for ds tol h (Some (set used - {dr})) < 0"
    using dr by (simp add: droppable_of_def)
  have "\<forall>k < length hole_ds. ?as' ! k \<in> set ?used'
          \<and> ds ! nat (?as' ! k) \<le> hole_ds ! k + tol + eps"
  proof (intro allI impI)
    fix k assume k: "k < length hole_ds"
    show "?as' ! k \<in> set ?used' \<and> ds ! nat (?as' ! k) \<le> hole_ds ! k + tol + eps"
    proof (cases "assign_idx ! k = dr")
      case True
      then have "hole_ds ! k \<in> set (holes_by hole_ds assign_idx dr)"
        using k len by (auto simp: holes_by_iff)
      then have "\<not> best_drill_index_for ds tol (hole_ds ! k) (Some (set used - {dr})) < 0"
        using drop_ok by blast
      from best_index_Some [OF this] show ?thesis
        using True k len set' by (simp add: reassign_nth)
    next
      case False
      then show ?thesis using asg k len set' by (simp add: reassign_nth)
    qed
  qed
  moreover have "distinct ?used'" using dist by simp
  moreover have "\<forall>u \<in> set ?used'. 0 \<le> u \<and> nat u < length ds"
    using rng set' by simp
  moreover have "length ?as' = length hole_ds"
    using len by (rule reassign_length)
  ultimately show ?thesis by (simp add: plan_inv_def)
qed

lemma max_droppable:
  assumes s: "sorted ds" and inv: "plan_inv ds tol hole_ds used assign_idx"
    and two: "2 \<le> length used"
  shows "Max (set used) \<in> set (droppable_of ds tol hole_ds used assign_idx)"
proof -
  let ?m = "Max (set used)"
  have dist: "distinct used" and len: "length assign_idx = length hole_ds"
    and rng: "\<forall>u \<in> set used. 0 \<le> u \<and> nat u < length ds"
    and asg: "\<forall>k < length hole_ds. assign_idx ! k \<in> set used
                \<and> ds ! nat (assign_idx ! k) \<le> hole_ds ! k + tol + eps"
    using inv by (simp_all add: plan_inv_def)
  have ne: "set used \<noteq> {}" using two by auto
  have m_in: "?m \<in> set used" using ne by simp
  have "card (set used) = length used" using dist by (rule distinct_card)
  then have "card (set used - {?m}) \<ge> 1" using two m_in by simp
  then have "set used - {?m} \<noteq> {}" by (metis card.empty not_one_le_zero)
  then obtain u where u: "u \<in> set used" "u \<noteq> ?m" by blast
  have "\<forall>h \<in> set (holes_by hole_ds assign_idx ?m).
          \<not> best_drill_index_for ds tol h (Some (set used - {?m})) < 0"
  proof
    fix h assume "h \<in> set (holes_by hole_ds assign_idx ?m)"
    then obtain k where k: "k < length hole_ds" "hole_ds ! k = h" "assign_idx ! k = ?m"
      by (auto simp: holes_by_iff)
    then have lim: "ds ! nat ?m \<le> h + tol + eps" using asg by auto
    have a0: "d \<le> h + tol + eps"
      if id: "(i, d) \<in> set (enumerate 0 ds)" and iu: "int i \<in> set used" and "int i \<noteq> ?m"
      for i d
    proof -
      have "int i \<le> ?m" using iu by (intro Max_ge) simp_all
      then have "int i < ?m" using \<open>int i \<noteq> ?m\<close> by simp
      then have "i \<le> nat ?m" by simp
      moreover have "nat ?m < length ds" using rng m_in by blast
      ultimately have "ds ! i \<le> ds ! nat ?m" using s by (simp add: sorted_nth_mono)
      moreover have "d = ds ! i" using id by (simp add: in_set_enumerate_eq)
      ultimately show "d \<le> h + tol + eps" using lim by simp
    qed
    have a: "\<forall>(i, d) \<in> set (enumerate 0 ds). int i \<in> set used - {?m} \<longrightarrow> d \<le> h + tol + eps"
      using a0 by auto
    have "(nat u, ds ! nat u) \<in> set (enumerate 0 ds)"
      using rng u(1) by (simp add: in_set_enumerate_eq)
    moreover have "int (nat u) \<in> set used - {?m}" using rng u by simp
    ultimately have b: "\<exists>(i, d) \<in> set (enumerate 0 ds). int i \<in> set used - {?m}"
      by blast
    have "0 \<le> best_drill_loop (h + tol) (Some (set used - {?m})) (enumerate 0 ds) (- 1)"
      using a b by (intro bdl_allowed_pos) auto
    then show "\<not> best_drill_index_for ds tol h (Some (set used - {?m})) < 0"
      by (simp add: best_drill_index_for_def)
  qed
  then show ?thesis using m_in by (simp add: droppable_of_def)
qed

lemma reduce_ok:
  assumes "sorted ds" "1 \<le> max_bits" "plan_inv ds tol hole_ds used assign_idx"
  shows "\<exists>used' assign'. reduce_loop ds tol hole_ds max_bits used assign_idx = Inr (used', assign')
           \<and> int (length used') \<le> max_bits \<and> plan_inv ds tol hole_ds used' assign'"
  using assms
proof (induction ds tol hole_ds max_bits used assign_idx rule: reduce_loop.induct)
  case (1 ds tol hole_ds max_bits used assign_idx)
  show ?case
  proof (cases "max_bits < int (length used)")
    case False
    then show ?thesis using 1(4) by (simp add: reduce_loop.simps)
  next
    case True
    let ?dr = "droppable_of ds tol hole_ds used assign_idx"
    let ?d = "drop_choice ds assign_idx ?dr"
    have nokey: "\<not> (\<exists>i \<in> set assign_idx. i \<notin> set used)"
      using 1(4) by (auto simp: plan_inv_def in_set_conv_nth)
    have "2 \<le> length used" using True 1(3) by simp
    then have "Max (set used) \<in> set ?dr" using 1(2) 1(4) by (intro max_droppable)
    then have ne: "?dr \<noteq> []" by auto
    have d_in: "?d \<in> set ?dr"
    proof -
      have "sort_key (\<lambda>i. (count_list assign_idx i, ds ! nat i)) ?dr \<noteq> []"
        using ne by (metis length_0_conv length_sort)
      then have "hd (sort_key (\<lambda>i. (count_list assign_idx i, ds ! nat i)) ?dr)
                   \<in> set (sort_key (\<lambda>i. (count_list assign_idx i, ds ! nat i)) ?dr)"
        by (rule hd_in_set)
      then show ?thesis by (simp add: drop_choice_def)
    qed
    have inv': "plan_inv ds tol hole_ds (remove1 ?d used) (reassign ds tol hole_ds (remove1 ?d used) ?d assign_idx)"
      using 1(4) d_in by (rule reassign_inv)
    have "\<exists>used' assign'. reduce_loop ds tol hole_ds max_bits (remove1 ?d used)
               (reassign ds tol hole_ds (remove1 ?d used) ?d assign_idx) = Inr (used', assign')
           \<and> int (length used') \<le> max_bits \<and> plan_inv ds tol hole_ds used' assign'"
      using 1(1) [OF True nokey refl ne refl refl 1(2) 1(3) inv'] .
    moreover have "reduce_loop ds tol hole_ds max_bits used assign_idx =
        reduce_loop ds tol hole_ds max_bits (remove1 ?d used)
               (reassign ds tol hole_ds (remove1 ?d used) ?d assign_idx)"
      using True nokey ne by (subst reduce_loop.simps) (simp add: Let_def)
    ultimately show ?thesis by simp
  qed
qed

section \<open>Properties of the drill planner\<close>

lemma initial_plan_inv:
  assumes nonneg: "\<not> (\<exists>i \<in> set (map (\<lambda>h. best_drill_index_for ds tol h None) hole_ds). i < 0)"
  shows "plan_inv ds tol hole_ds
           (sort (remdups (filter (\<lambda>i. 0 \<le> i) (map (\<lambda>h. best_drill_index_for ds tol h None) hole_ds))))
           (map (\<lambda>h. best_drill_index_for ds tol h None) hole_ds)"
proof -
  let ?as = "map (\<lambda>h. best_drill_index_for ds tol h None) hole_ds"
  let ?used = "sort (remdups (filter (\<lambda>i. 0 \<le> i) ?as))"
  have su: "set ?used = set ?as" using nonneg by auto
  have each: "\<not> best_drill_index_for ds tol h None < 0" if "h \<in> set hole_ds" for h
    using nonneg that by auto
  have "distinct ?used" by simp
  moreover have "length ?as = length hole_ds" by simp
  moreover have "\<forall>u \<in> set ?used. 0 \<le> u \<and> nat u < length ds"
  proof
    fix u assume "u \<in> set ?used"
    then obtain h where h: "h \<in> set hole_ds" "u = best_drill_index_for ds tol h None"
      using su by auto
    then show "0 \<le> u \<and> nat u < length ds"
      using each [OF h(1)] best_index_None [OF each [OF h(1)]] by simp
  qed
  moreover have "\<forall>k < length hole_ds. ?as ! k \<in> set ?used
                   \<and> ds ! nat (?as ! k) \<le> hole_ds ! k + tol + eps"
  proof (intro allI impI)
    fix k assume k: "k < length hole_ds"
    then have hk: "hole_ds ! k \<in> set hole_ds" by simp
    have "?as ! k \<in> set ?as" using k by (intro nth_mem) simp
    then have "?as ! k \<in> set ?used" using su by simp
    moreover have "ds ! nat (?as ! k) \<le> hole_ds ! k + tol + eps"
      using best_index_None [OF each [OF hk]] k by simp
    ultimately show "?as ! k \<in> set ?used \<and> ds ! nat (?as ! k) \<le> hole_ds ! k + tol + eps"
      by simp
  qed
  ultimately show ?thesis unfolding plan_inv_def by blast
qed

lemma no_cover_if_negative:
  assumes neg: "\<exists>i \<in> set (map (\<lambda>h. best_drill_index_for (map diameter (sort_key diameter bits)) tol h None) hole_ds). i < 0"
    and S: "S \<subseteq> set bits"
  shows "\<not> (\<forall>h \<in> set hole_ds. \<exists>b \<in> S. diameter b \<le> h + tol)"
proof -
  let ?ds = "map diameter (sort_key diameter bits)"
  obtain h where h: "h \<in> set hole_ds" "best_drill_index_for ?ds tol h None < 0"
    using neg by auto
  have srt: "sorted ?ds" by (rule sorted_sort_key)
  have "h + tol < diameter b" if "b \<in> S" for b
  proof -
    have "diameter b \<in> set ?ds" using that S by auto
    then have "h + tol + eps < diameter b" using srt h(2) by (intro best_index_None_neg)
    then show ?thesis using eps_pos by simp
  qed
  then have "\<not> (\<exists>b \<in> S. diameter b \<le> h + tol)" by force
  then show ?thesis using h(1) by blast
qed

lemma sorted_reverse_length: "length (sorted_reverse k xs) = length xs"
  by (simp add: sorted_reverse_def)

text \<open>
  C5. For a cap \<open>max_bits\<close> of at least 1 the planner always returns. When it returns an
  error, no subset of the candidate drills of at most \<open>max_bits\<close> elements gives every hole
  a drill with diameter at most hole + tol; when it returns a plan, the plan has at most
  \<open>max_bits\<close> drills.
\<close>

theorem plan_impossibility_complete:
  assumes mb: "1 \<le> max_bits"
  shows "\<exists>r. plan_drills_for_holes hole_ds candidate_bits tol max_bits = Inr r
           \<and> (status r = Error \<longrightarrow>
                (\<forall>S. S \<subseteq> set candidate_bits \<and> int (card S) \<le> max_bits \<longrightarrow>
                   \<not> (\<forall>h \<in> set hole_ds. \<exists>b \<in> S. diameter b \<le> h + tol)))
           \<and> (status r = Ok \<longrightarrow> int (length (planned r)) \<le> max_bits)"
proof (cases "hole_ds = []")
  case True
  then show ?thesis using mb by (simp add: plan_drills_for_holes_def)
next
  case holes: False
  show ?thesis
  proof (cases "candidate_bits = []")
    case True
    have "\<not> (\<forall>h \<in> set hole_ds. \<exists>b \<in> S. diameter b \<le> h + tol)" if "S \<subseteq> set candidate_bits" for S
    proof -
      have "S = {}" using that True by simp
      moreover obtain h where "h \<in> set hole_ds" using holes by (cases hole_ds) auto
      ultimately show ?thesis by blast
    qed
    then show ?thesis using holes True by (simp add: plan_drills_for_holes_def)
  next
    case bits: False
    let ?ds = "map diameter (sort_key diameter candidate_bits)"
    let ?as = "map (\<lambda>h. best_drill_index_for ?ds tol h None) hole_ds"
    let ?used = "sort (remdups (filter (\<lambda>i. 0 \<le> i) ?as))"
    show ?thesis
    proof (cases "\<exists>i \<in> set ?as. i < 0")
      case True
      have "\<forall>S. S \<subseteq> set candidate_bits \<and> int (card S) \<le> max_bits \<longrightarrow>
                   \<not> (\<forall>h \<in> set hole_ds. \<exists>b \<in> S. diameter b \<le> h + tol)"
        using no_cover_if_negative [OF True] by blast
      moreover have "plan_drills_for_holes hole_ds candidate_bits tol max_bits =
          Inr \<lparr>status = Error, planned = [], counts = [],
               msg = [SmallestDrillTooLarge (min_list (map fst (filter (\<lambda>(h, i). i < 0) (zip hole_ds ?as))))]\<rparr>"
        using holes bits True unfolding plan_drills_for_holes_def Let_def by simp
      ultimately show ?thesis by simp
    next
      case False
      have "sorted ?ds" by (rule sorted_sort_key)
      moreover have "plan_inv ?ds tol hole_ds ?used ?as"
        using False by (rule initial_plan_inv)
      ultimately obtain used' assign' where
        red: "reduce_loop ?ds tol hole_ds max_bits ?used ?as = Inr (used', assign')"
        and le: "int (length used') \<le> max_bits"
        using reduce_ok [OF _ mb, of ?ds tol hole_ds ?used ?as] by blast
      let ?pl = "sorted_reverse diameter (map (\<lambda>i. sort_key diameter candidate_bits ! nat i) used')"
      have "plan_drills_for_holes hole_ds candidate_bits tol max_bits =
          Inr \<lparr>status = Ok, planned = ?pl, counts = counts_of ?ds used' assign',
               msg = [PlannedDrills ?pl]\<rparr>"
        using holes bits False red unfolding plan_drills_for_holes_def Let_def by simp
      moreover have "int (length ?pl) \<le> max_bits"
        using le by (simp add: sorted_reverse_length)
      ultimately show ?thesis by simp
    qed
  qed
qed

theorem plan_impossibility_complete_witness:
  "(1::int) \<le> 2
   \<and> plan_drills_for_holes [3 / 10]
        [\<lparr>name = ''a'', diameter = 1 / 2, rpm = None\<rparr>, \<lparr>name = ''b'', diameter = 3 / 5, rpm = None\<rparr>]
        (1 / 20) 2
      = Inr \<lparr>status = Error, planned = [], counts = [], msg = [SmallestDrillTooLarge (3 / 10)]\<rparr>
   \<and> \<not> (1 / 2 \<le> 3 / 10 + (1 / 20 :: real)) \<and> \<not> (3 / 5 \<le> 3 / 10 + (1 / 20 :: real))
   \<and> plan_drills_for_holes [3 / 5, 4 / 5, 1]
        [\<lparr>name = ''a'', diameter = 1 / 2, rpm = None\<rparr>, \<lparr>name = ''b'', diameter = 3 / 5, rpm = None\<rparr>,
         \<lparr>name = ''c'', diameter = 4 / 5, rpm = None\<rparr>, \<lparr>name = ''e'', diameter = 1, rpm = None\<rparr>]
        (1 / 20) 2
      = Inr \<lparr>status = Ok,
             planned = [\<lparr>name = ''e'', diameter = 1, rpm = None\<rparr>, \<lparr>name = ''b'', diameter = 3 / 5, rpm = None\<rparr>],
             counts = [(3 / 5, 2), (1, 1)],
             msg = [PlannedDrills [\<lparr>name = ''e'', diameter = 1, rpm = None\<rparr>,
                                   \<lparr>name = ''b'', diameter = 3 / 5, rpm = None\<rparr>]]\<rparr>
   \<and> int (length [\<lparr>name = ''e'', diameter = 1, rpm = None\<rparr>, \<lparr>name = ''b'', diameter = 3 / 5, rpm = None\<rparr>]) \<le> 2"
proof -
  have h: "(1::int) \<le> 2" by simp
  show ?thesis
    using plan_impossibility_complete [OF h, of "[3 / 10]"
        "[\<lparr>name = ''a'', diameter = 1 / 2, rpm = None\<rparr>, \<lparr>name = ''b'', diameter = 3 / 5, rpm = None\<rparr>]" "1 / 20"]
      plan_impossibility_complete [OF h, of "[3 / 5, 4 / 5, 1]"
        "[\<lparr>name = ''a'', diameter = 1 / 2, rpm = None\<rparr>, \<lparr>name = ''b'', diameter = 3 / 5, rpm = None\<rparr>,
         \<lparr>name = ''c'', diameter = 4 / 5, rpm = None\<rparr>, \<lparr>name = ''e'', diameter = 1, rpm = None\<rparr>]" "1 / 20"]
    by (simp add: plan_drills_for_holes_def best_drill_index_for_def eps_def Let_def
      reduce_loop.simps droppable_of_def holes_by_def drop_choice_def reassign_def counts_of_def
      sorted_reverse_def less_eq_prod_def less_prod_def)
qed

section \<open>Properties of the hole assignment\<close>

lemma pick_result:
  "pick_loop limit xs pick = r \<Longrightarrow>
   r = pick \<or> (\<exists>(i, d) \<in> set xs. r = Some i \<and> d \<le> limit + eps)"
  by (induction limit xs pick rule: pick_loop.induct) (auto split: if_splits)

lemma pick_Some_stays: "pick_loop limit xs (Some j) \<noteq> None"
  by (induction limit xs "Some j" arbitrary: j rule: pick_loop.induct) auto

lemma pick_sorted_max:
  "sorted (map snd xs) \<Longrightarrow> (j, d) \<in> set xs \<Longrightarrow> d \<le> limit + eps \<Longrightarrow>
   \<exists>i d'. pick_loop limit xs pick = Some i \<and> (i, d') \<in> set xs \<and> d \<le> d' \<and> d' \<le> limit + eps"
proof (induction limit xs pick rule: pick_loop.induct)
  case (1 limit pick)
  then show ?case by simp
next
  case (2 limit i0 d0 rest pick)
  have d0: "d0 \<le> limit + eps"
    using 2(2,3,4) by auto
  then have step: "pick_loop limit ((i0, d0) # rest) pick = pick_loop limit rest (Some i0)"
    by simp
  have srt: "sorted (map snd rest)" using 2(2) by simp
  show ?case
  proof (cases "(j, d) \<in> set rest")
    case True
    from 2(1) [OF d0 srt True 2(4)] show ?thesis using step by auto
  next
    case False
    then have jd: "j = i0" "d = d0" using 2(3) by auto
    from pick_result [OF refl, of limit rest "Some i0"]
    show ?thesis
    proof
      assume "pick_loop limit rest (Some i0) = Some i0"
      then show ?thesis using step jd d0 by auto
    next
      assume "\<exists>(i, d) \<in> set rest. pick_loop limit rest (Some i0) = Some i \<and> d \<le> limit + eps"
      then obtain i d' where r: "(i, d') \<in> set rest" "pick_loop limit rest (Some i0) = Some i"
        "d' \<le> limit + eps" by auto
      have "d0 \<le> d'" using 2(2) r(1) by force
      then show ?thesis using step jd r by auto
    qed
  qed
qed

text \<open>The drill index that the inner loop picks for a hole of diameter \<open>h\<close>.\<close>

definition pick_for :: "real list \<Rightarrow> real \<Rightarrow> real \<Rightarrow> nat option" where
  "pick_for ds tol h = pick_loop (h + tol) (enumerate 0 ds) None"

lemma pick_for_Some:
  assumes s: "sorted ds" and p: "pick_for ds tol h = Some i"
  shows "i < length ds \<and> ds ! i \<le> h + tol + eps
         \<and> (\<forall>d \<in> set ds. d \<le> h + tol + eps \<longrightarrow> d \<le> ds ! i)"
proof -
  from pick_result [OF p [unfolded pick_for_def]]
  obtain d0 where d0: "(i, d0) \<in> set (enumerate 0 ds)" "d0 \<le> h + tol + eps" by auto
  then have i: "i < length ds" "ds ! i = d0" by (auto simp: in_set_enumerate_eq)
  have "d \<le> ds ! i" if dm: "d \<in> set ds" and dl: "d \<le> h + tol + eps" for d
  proof -
    obtain j where j: "j < length ds" "ds ! j = d" using dm by (auto simp: in_set_conv_nth)
    then have "(j, d) \<in> set (enumerate 0 ds)" by (simp add: in_set_enumerate_eq)
    moreover have "sorted (map snd (enumerate 0 ds))" using s by simp
    ultimately obtain i' d' where r: "pick_loop (h + tol) (enumerate 0 ds) None = Some i'"
        "(i', d') \<in> set (enumerate 0 ds)" "d \<le> d'"
      using pick_sorted_max [of "enumerate 0 ds" j d "h + tol" None] dl by blast
    then have "i' = i" using p by (simp add: pick_for_def)
    then have "d' = ds ! i" using r(2) by (simp add: in_set_enumerate_eq)
    then show ?thesis using r(3) by simp
  qed
  then show ?thesis using i d0 by blast
qed

lemma pick_for_None:
  assumes s: "sorted ds"
  shows "pick_for ds tol h = None \<longleftrightarrow> (\<forall>d \<in> set ds. h + tol + eps < d)"
proof
  assume n: "pick_for ds tol h = None"
  show "\<forall>d \<in> set ds. h + tol + eps < d"
  proof (rule ccontr)
    assume "\<not> (\<forall>d \<in> set ds. h + tol + eps < d)"
    then obtain d where d: "d \<in> set ds" "d \<le> h + tol + eps" by force
    then obtain j where j: "j < length ds" "ds ! j = d" by (auto simp: in_set_conv_nth)
    then have "(j, d) \<in> set (enumerate 0 ds)" by (simp add: in_set_enumerate_eq)
    moreover have "sorted (map snd (enumerate 0 ds))" using s by simp
    ultimately have "\<exists>i. pick_loop (h + tol) (enumerate 0 ds) None = Some i"
      using pick_sorted_max [of "enumerate 0 ds" j d "h + tol" None] d(2) by blast
    then show False using n by (simp add: pick_for_def)
  qed
next
  assume a: "\<forall>d \<in> set ds. h + tol + eps < d"
  show "pick_for ds tol h = None"
  proof (rule ccontr)
    assume "pick_for ds tol h \<noteq> None"
    then obtain i where "pick_loop (h + tol) (enumerate 0 ds) None = Some i"
      by (auto simp: pick_for_def)
    from pick_result [OF this] obtain d where "(i, d) \<in> set (enumerate 0 ds)" "d \<le> h + tol + eps"
      by auto
    then have "d \<in> set ds" "d \<le> h + tol + eps" by (auto simp: in_set_enumerate_eq)
    then show False using a by force
  qed
qed

lemma assign_loop_Inl:
  "assign_loop tol ds holes assigned used = Inl e \<Longrightarrow>
   \<exists>(x, y, h) \<in> set holes. e = NoDrillFor h tol \<and> pick_for ds tol h = None"
  by (induction tol ds holes assigned used rule: assign_loop.induct)
     (auto simp: pick_for_def split: option.splits)

lemma assign_loop_Inr:
  "assign_loop tol ds holes assigned used = Inr (assigned', used') \<Longrightarrow>
   length assigned = length ds \<Longrightarrow>
   length assigned' = length ds
   \<and> used' = used \<union> {i. \<exists>(x, y, h) \<in> set holes. pick_for ds tol h = Some i}
   \<and> (\<forall>i < length ds. assigned' ! i =
         assigned ! i @ map (\<lambda>(x, y, h). (x, y)) (filter (\<lambda>(x, y, h). pick_for ds tol h = Some i) holes))
   \<and> (\<forall>(x, y, h) \<in> set holes. pick_for ds tol h \<noteq> None)"
proof (induction tol ds holes assigned used rule: assign_loop.induct)
  case (1 tol ds assigned used)
  then show ?case by simp
next
  case (2 tol ds x y h holes assigned used)
  from 2(2) obtain i where pk: "pick_loop (h + tol) (enumerate 0 ds) None = Some i"
    by (auto split: option.splits)
  then have pf: "pick_for ds tol h = Some i" by (simp add: pick_for_def)
  have rec: "assign_loop tol ds holes (assigned[i := assigned ! i @ [(x, y)]]) (insert i used)
               = Inr (assigned', used')"
    using 2(2) pk by simp
  have len: "length (assigned[i := assigned ! i @ [(x, y)]]) = length ds"
    using 2(3) by simp
  note ih = 2(1) [OF pk rec len]
  have a: "length assigned' = length ds" using ih by blast
  have b: "used' = insert i used \<union> {i. \<exists>(x, y, h) \<in> set holes. pick_for ds tol h = Some i}"
    using ih by blast
  have c: "\<forall>k < length ds. assigned' ! k =
         (assigned[i := assigned ! i @ [(x, y)]]) ! k
           @ map (\<lambda>(x, y, h). (x, y)) (filter (\<lambda>(x, y, h). pick_for ds tol h = Some k) holes)"
    using ih by blast
  have d: "\<forall>(x, y, h) \<in> set holes. pick_for ds tol h \<noteq> None" using ih by blast
  have "used' = used \<union> {k. \<exists>(x, y, h) \<in> set ((x, y, h) # holes). pick_for ds tol h = Some k}"
    using b pf by auto
  moreover have "\<forall>k < length ds. assigned' ! k =
         assigned ! k @ map (\<lambda>(x, y, h). (x, y))
            (filter (\<lambda>(x, y, h). pick_for ds tol h = Some k) ((x, y, h) # holes))"
  proof (intro allI impI)
    fix k assume k: "k < length ds"
    show "assigned' ! k = assigned ! k @ map (\<lambda>(x, y, h). (x, y))
            (filter (\<lambda>(x, y, h). pick_for ds tol h = Some k) ((x, y, h) # holes))"
      using c k pf 2(3) by (cases "k = i") auto
  qed
  moreover have "\<forall>(x, y, h) \<in> set ((x, y, h) # holes). pick_for ds tol h \<noteq> None"
    using d pf by simp
  ultimately show ?case using a by blast
qed

lemma set_sorted_reverse: "set (sorted_reverse k xs) = set xs"
  by (simp add: sorted_reverse_def)

text \<open>The candidate drills: the bits with a positive diameter.\<close>

definition candidates :: "bit list \<Rightarrow> bit set" where
  "candidates drill_bits = {b \<in> set drill_bits. 0 < diameter b}"

text \<open>Drill \<open>b\<close> is a largest candidate within the slackened limit of a hole of diameter \<open>h\<close>.\<close>

definition best_for :: "bit list \<Rightarrow> real \<Rightarrow> real \<Rightarrow> bit \<Rightarrow> bool" where
  "best_for drill_bits tol h b \<longleftrightarrow>
     b \<in> candidates drill_bits \<and> diameter b \<le> h + tol + eps
     \<and> (\<forall>c \<in> candidates drill_bits. diameter c \<le> h + tol + eps \<longrightarrow> diameter c \<le> diameter b)"

lemma drills_facts:
  fixes drill_bits :: "bit list"
  defines "drills \<equiv> sort_key diameter (filter (\<lambda>b. 0 < diameter b) drill_bits)"
  shows "set drills = candidates drill_bits" and "sorted (map diameter drills)"
    and "drills = [] \<longleftrightarrow> candidates drill_bits = {}"
proof -
  show a: "set drills = candidates drill_bits" by (auto simp: drills_def candidates_def)
  show "sorted (map diameter drills)" unfolding drills_def by (rule sorted_sort_key)
  show "drills = [] \<longleftrightarrow> candidates drill_bits = {}" using a by auto
qed

lemma pick_best_for:
  assumes p: "pick_for (map diameter (sort_key diameter (filter (\<lambda>b. 0 < diameter b) drill_bits))) tol h = Some i"
  shows "i < length (sort_key diameter (filter (\<lambda>b. 0 < diameter b) drill_bits))
         \<and> best_for drill_bits tol h (sort_key diameter (filter (\<lambda>b. 0 < diameter b) drill_bits) ! i)"
proof -
  let ?drills = "sort_key diameter (filter (\<lambda>b. 0 < diameter b) drill_bits)"
  let ?ds = "map diameter ?drills"
  have srt: "sorted ?ds" by (rule drills_facts(2))
  from pick_for_Some [OF srt p]
  have i: "i < length ?ds" and le: "?ds ! i \<le> h + tol + eps"
    and mx: "\<forall>d \<in> set ?ds. d \<le> h + tol + eps \<longrightarrow> d \<le> ?ds ! i" by blast+
  have il: "i < length ?drills" using i by simp
  then have mem: "?drills ! i \<in> candidates drill_bits"
    using drills_facts(1) [of drill_bits] nth_mem [OF il] by blast
  have "diameter c \<le> diameter (?drills ! i)"
    if c: "c \<in> candidates drill_bits" and cl: "diameter c \<le> h + tol + eps" for c
  proof -
    have "diameter c \<in> set ?ds" using c drills_facts(1) [of drill_bits] by auto
    then have "diameter c \<le> ?ds ! i" using mx cl by blast
    then show ?thesis using il by simp
  qed
  then show ?thesis using il mem le by (simp add: best_for_def)
qed

lemma pick_none_candidates:
  "pick_for (map diameter (sort_key diameter (filter (\<lambda>b. 0 < diameter b) drill_bits))) tol h = None
   \<longleftrightarrow> (\<forall>b \<in> candidates drill_bits. h + tol + eps < diameter b)"
proof -
  let ?drills = "sort_key diameter (filter (\<lambda>b. 0 < diameter b) drill_bits)"
  have "set (map diameter ?drills) = diameter ` candidates drill_bits"
    using drills_facts(1) [of drill_bits] by simp
  then show ?thesis
    using pick_for_None [OF drills_facts(2), of drill_bits tol h] by simp
qed

lemma assign_error_iff:
  "(assign_holes_to_drills holes drill_bits tol = Inl NoDrillBits \<longleftrightarrow> candidates drill_bits = {})
   \<and> ((\<exists>h t. assign_holes_to_drills holes drill_bits tol = Inl (NoDrillFor h t)) \<longleftrightarrow>
        candidates drill_bits \<noteq> {}
        \<and> (\<exists>(x, y, h) \<in> set holes. \<forall>b \<in> candidates drill_bits. h + tol + eps < diameter b))"
proof -
  let ?drills = "sort_key diameter (filter (\<lambda>b. 0 < diameter b) drill_bits)"
  let ?ds = "map diameter ?drills"
  let ?loop = "assign_loop tol ?ds holes (replicate (length ?drills) []) {}"
  show ?thesis
  proof (cases "?drills = []")
    case True
    then have "candidates drill_bits = {}" using drills_facts(3) [of drill_bits] by simp
    moreover have "assign_holes_to_drills holes drill_bits tol = Inl NoDrillBits"
      using True by (simp add: assign_holes_to_drills_def)
    ultimately show ?thesis by simp
  next
    case ne: False
    then have cne: "candidates drill_bits \<noteq> {}" using drills_facts(3) [of drill_bits] by simp
    show ?thesis
    proof (cases ?loop)
      case (Inl e)
      from assign_loop_Inl [OF Inl] obtain x y h where
        h: "(x, y, h) \<in> set holes" "e = NoDrillFor h tol" "pick_for ?ds tol h = None" by auto
      have "assign_holes_to_drills holes drill_bits tol = Inl (NoDrillFor h tol)"
        using ne Inl h(2) by (simp add: assign_holes_to_drills_def Let_def)
      moreover have "\<forall>b \<in> candidates drill_bits. h + tol + eps < diameter b"
        using h(3) by (simp add: pick_none_candidates)
      ultimately show ?thesis using cne h(1) by auto
    next
      case (Inr r)
      obtain assigned used where r: "r = (assigned, used)" by (cases r)
      have len: "length (replicate (length ?drills) ([] :: point list)) = length ?ds" by simp
      from assign_loop_Inr [OF Inr [unfolded r] len]
      have all: "\<forall>(x, y, h) \<in> set holes. pick_for ?ds tol h \<noteq> None" by blast
      have "\<not> (\<exists>(x, y, h) \<in> set holes. \<forall>b \<in> candidates drill_bits. h + tol + eps < diameter b)"
        using all by (auto simp: pick_none_candidates [symmetric])
      moreover have "\<exists>ordered. assign_holes_to_drills holes drill_bits tol = Inr ordered"
        using ne Inr r by (simp add: assign_holes_to_drills_def Let_def)
      ultimately show ?thesis using cne by auto
    qed
  qed
qed

lemma assign_result:
  assumes ok: "assign_holes_to_drills holes drill_bits tol = Inr ordered"
  shows "(\<forall>(x, y, h) \<in> set holes. \<exists>(b, pts) \<in> set ordered. (x, y) \<in> set pts \<and> best_for drill_bits tol h b)
       \<and> (\<forall>(b, pts) \<in> set ordered. \<forall>p \<in> set pts.
             \<exists>h. (fst p, snd p, h) \<in> set holes \<and> best_for drill_bits tol h b)"
proof -
  let ?drills = "sort_key diameter (filter (\<lambda>b. 0 < diameter b) drill_bits)"
  let ?ds = "map diameter ?drills"
  let ?n = "length ?drills"
  let ?loop = "assign_loop tol ?ds holes (replicate ?n []) {}"
  have ne: "?drills \<noteq> []"
    using ok by (auto simp: assign_holes_to_drills_def Let_def split: if_splits)
  obtain assigned used where loop: "?loop = Inr (assigned, used)"
    using ok ne by (cases ?loop) (auto simp: assign_holes_to_drills_def Let_def)
  have ord: "ordered = map (\<lambda>i. (?drills ! i, assigned ! i))
                (sorted_reverse (\<lambda>i. ?ds ! i) (filter (\<lambda>i. i \<in> used) [0..<?n]))"
    using ok ne loop by (simp add: assign_holes_to_drills_def Let_def)
  have setord: "set ordered = {(?drills ! i, assigned ! i) | i. i < ?n \<and> i \<in> used}"
    unfolding ord by (auto simp: set_sorted_reverse)
  have len: "length (replicate ?n ([] :: point list)) = length ?ds" by simp
  from assign_loop_Inr [OF loop len]
  have used: "used = {i. \<exists>(x, y, h) \<in> set holes. pick_for ?ds tol h = Some i}"
    and asg: "\<forall>i < ?n. assigned ! i =
         map (\<lambda>(x, y, h). (x, y)) (filter (\<lambda>(x, y, h). pick_for ?ds tol h = Some i) holes)"
    and all: "\<forall>(x, y, h) \<in> set holes. pick_for ?ds tol h \<noteq> None"
    by auto
  have one: "\<exists>(b, pts) \<in> set ordered. (x, y) \<in> set pts \<and> best_for drill_bits tol h b"
    if hm: "(x, y, h) \<in> set holes" for x y h
  proof -
    obtain i where i: "pick_for ?ds tol h = Some i" using all hm by fastforce
    from pick_best_for [OF i] have il: "i < ?n" and bf: "best_for drill_bits tol h (?drills ! i)"
      by blast+
    have iu: "i \<in> used" using used hm i by auto
    have "(x, y, h) \<in> set (filter (\<lambda>(x, y, h). pick_for ?ds tol h = Some i) holes)"
      using hm i by simp
    then have "(\<lambda>(x, y, h). (x, y)) (x, y, h) \<in> set (map (\<lambda>(x, y, h). (x, y))
                 (filter (\<lambda>(x, y, h). pick_for ?ds tol h = Some i) holes))"
      unfolding set_map by (rule imageI)
    then have "(x, y) \<in> set (assigned ! i)" using asg il by simp
    moreover have "(?drills ! i, assigned ! i) \<in> set ordered" using setord il iu by blast
    ultimately show ?thesis using bf by blast
  qed
  have two: "\<exists>h. (fst p, snd p, h) \<in> set holes \<and> best_for drill_bits tol h b"
    if bm: "(b, pts) \<in> set ordered" and pm: "p \<in> set pts" for b pts p
  proof -
    obtain i where i: "i < ?n" "b = ?drills ! i" "pts = assigned ! i"
      using bm setord by auto
    then have "p \<in> set (map (\<lambda>(x, y, h). (x, y))
                 (filter (\<lambda>(x, y, h). pick_for ?ds tol h = Some i) holes))"
      using pm asg by simp
    then obtain x y h where xyh: "(x, y, h) \<in> set holes" "pick_for ?ds tol h = Some i" "p = (x, y)"
      by auto
    from pick_best_for [OF xyh(2)] have "best_for drill_bits tol h b" using i(2) by simp
    then show ?thesis using xyh by auto
  qed
  show ?thesis using one two by blast
qed

text \<open>
  C1 (amended). The candidates are the bits with a positive diameter. The planner reports
  \<open>NoDrillBits\<close> exactly when there is no candidate, and reports that a hole has no drill
  exactly when there are candidates and some hole has none with diameter at most
  hole + tol + 1e-9. Otherwise every hole is put on the list of a largest candidate whose
  diameter is at most hole + tol + 1e-9, and every point on a drill's list comes from such a
  hole.
\<close>

theorem assign_rule_with_slack:
  "(assign_holes_to_drills holes drill_bits tol = Inl NoDrillBits \<longleftrightarrow> candidates drill_bits = {})
   \<and> ((\<exists>h t. assign_holes_to_drills holes drill_bits tol = Inl (NoDrillFor h t)) \<longleftrightarrow>
        candidates drill_bits \<noteq> {}
        \<and> (\<exists>(x, y, h) \<in> set holes. \<forall>b \<in> candidates drill_bits. h + tol + eps < diameter b))
   \<and> (\<forall>ordered. assign_holes_to_drills holes drill_bits tol = Inr ordered \<longrightarrow>
        (\<forall>(x, y, h) \<in> set holes. \<exists>(b, pts) \<in> set ordered. (x, y) \<in> set pts \<and> best_for drill_bits tol h b)
        \<and> (\<forall>(b, pts) \<in> set ordered. \<forall>p \<in> set pts.
              \<exists>h. (fst p, snd p, h) \<in> set holes \<and> best_for drill_bits tol h b))"
  using assign_error_iff [of holes drill_bits tol] assign_result [of holes drill_bits tol]
  by blast

theorem assign_rule_with_slack_witness:
  "assign_holes_to_drills [(0, 0, 3 / 5), (1, 1, 1)]
     [\<lparr>name = ''a'', diameter = 1 / 2, rpm = None\<rparr>, \<lparr>name = ''e'', diameter = 1, rpm = None\<rparr>,
      \<lparr>name = ''b'', diameter = 3 / 5, rpm = None\<rparr>] (1 / 20)
   = Inr [(\<lparr>name = ''e'', diameter = 1, rpm = None\<rparr>, [(1, 1)]),
          (\<lparr>name = ''b'', diameter = 3 / 5, rpm = None\<rparr>, [(0, 0)])]
   \<and> best_for [\<lparr>name = ''a'', diameter = 1 / 2, rpm = None\<rparr>, \<lparr>name = ''e'', diameter = 1, rpm = None\<rparr>,
      \<lparr>name = ''b'', diameter = 3 / 5, rpm = None\<rparr>] (1 / 20) (3 / 5) \<lparr>name = ''b'', diameter = 3 / 5, rpm = None\<rparr>
   \<and> best_for [\<lparr>name = ''a'', diameter = 1 / 2, rpm = None\<rparr>, \<lparr>name = ''e'', diameter = 1, rpm = None\<rparr>,
      \<lparr>name = ''b'', diameter = 3 / 5, rpm = None\<rparr>] (1 / 20) 1 \<lparr>name = ''e'', diameter = 1, rpm = None\<rparr>
   \<and> assign_holes_to_drills [(0, 0, 3 / 10)]
     [\<lparr>name = ''a'', diameter = 1 / 2, rpm = None\<rparr>] (1 / 20) = Inl (NoDrillFor (3 / 10) (1 / 20))
   \<and> 3 / 10 + 1 / 20 + eps < (1 / 2 :: real)"
  using assign_rule_with_slack [of "[(0, 0, 3 / 5), (1, 1, 1)]"
     "[\<lparr>name = ''a'', diameter = 1 / 2, rpm = None\<rparr>, \<lparr>name = ''e'', diameter = 1, rpm = None\<rparr>,
      \<lparr>name = ''b'', diameter = 3 / 5, rpm = None\<rparr>]" "1 / 20"]
    assign_rule_with_slack [of "[(0, 0, 3 / 10)]" "[\<lparr>name = ''a'', diameter = 1 / 2, rpm = None\<rparr>]" "1 / 20"]
  by (simp add: assign_holes_to_drills_def sorted_reverse_def best_for_def candidates_def eps_def Let_def)

theorem assign_rule_counterexample:
  "assign_holes_to_drills [(0, 0, 1)] [\<lparr>name = ''d'', diameter = 1 + 1 / (2 * 10 ^ 9), rpm = None\<rparr>] 0
     = Inr [(\<lparr>name = ''d'', diameter = 1 + 1 / (2 * 10 ^ 9), rpm = None\<rparr>, [(0, 0)])]
   \<and> \<not> (diameter \<lparr>name = ''d'', diameter = 1 + 1 / (2 * 10 ^ 9), rpm = None\<rparr> \<le> 1 + 0)
   \<and> assign_holes_to_drills [] [] 0 = Inl NoDrillBits"
  by (simp add: assign_holes_to_drills_def sorted_reverse_def eps_def Let_def)

section \<open>Properties of the hole de-duplication\<close>

lemma dedupe_step_found:
  assumes "find_near r2 grid out (fst (cell inv_t x y)) (snd (cell inv_t x y)) x y = Some found"
  shows "dedupe_step r2 inv_t (grid, out) (x, y, d) =
           (grid, if snd (snd (out ! found)) < d then out[found := (x, y, d)] else out)"
proof -
  obtain ix iy where c: "cell inv_t x y = (ix, iy)" by (cases "cell inv_t x y")
  obtain x2 y2 d2 where o: "out ! found = (x2, y2, d2)" by (cases "out ! found")
  have f: "find_near r2 grid out ix iy x y = Some found" using assms c by simp
  show ?thesis by (simp add: dedupe_step_def c f o)
qed

lemma dedupe_step_new:
  assumes "find_near r2 grid out (fst (cell inv_t x y)) (snd (cell inv_t x y)) x y = None"
  shows "snd (dedupe_step r2 inv_t (grid, out) (x, y, d)) = out @ [(x, y, d)]"
proof -
  obtain ix iy where c: "cell inv_t x y = (ix, iy)" by (cases "cell inv_t x y")
  have f: "find_near r2 grid out ix iy x y = None" using assms c by simp
  show ?thesis by (simp add: dedupe_step_def c f)
qed

lemma dedupe_step_out:
  "snd (dedupe_step r2 inv_t (grid, out) h) = out @ [h]
   \<or> (\<exists>i. snd (dedupe_step r2 inv_t (grid, out) h) = out[i := h])
   \<or> snd (dedupe_step r2 inv_t (grid, out) h) = out"
proof -
  obtain x y d where h: "h = (x, y, d)" by (cases h)
  show ?thesis
  proof (cases "find_near r2 grid out (fst (cell inv_t x y)) (snd (cell inv_t x y)) x y")
    case None
    then show ?thesis unfolding h by (simp add: dedupe_step_new)
  next
    case (Some found)
    show ?thesis unfolding h dedupe_step_found [OF Some] by auto
  qed
qed

lemma dedupe_step_set:
  "set (snd (dedupe_step r2 inv_t st h)) \<subseteq> insert h (set (snd st))"
proof -
  obtain grid out where st: "st = (grid, out)" by (cases st)
  have up: "set (out[i := h]) \<subseteq> insert h (set out)" for i
    by (rule set_update_subset_insert)
  from dedupe_step_out [of r2 inv_t grid out h] show ?thesis
  proof (elim disjE exE)
    assume "snd (dedupe_step r2 inv_t (grid, out) h) = out @ [h]"
    then show ?thesis unfolding st by auto
  next
    fix i assume "snd (dedupe_step r2 inv_t (grid, out) h) = out[i := h]"
    then show ?thesis unfolding st using up [of i] by simp
  next
    assume "snd (dedupe_step r2 inv_t (grid, out) h) = out"
    then show ?thesis unfolding st by auto
  qed
qed

lemma dedupe_step_length:
  "length (snd (dedupe_step r2 inv_t st h)) \<le> Suc (length (snd st))"
proof -
  obtain grid out where st: "st = (grid, out)" by (cases st)
  from dedupe_step_out [of r2 inv_t grid out h] show ?thesis
    unfolding st by auto
qed

lemma dedupe_fold_set:
  "set (snd (foldl (dedupe_step r2 inv_t) st hs)) \<subseteq> set (snd st) \<union> set hs"
proof (induction hs arbitrary: st)
  case Nil
  then show ?case by simp
next
  case (Cons h hs)
  have "set (snd (foldl (dedupe_step r2 inv_t) (dedupe_step r2 inv_t st h) hs))
          \<subseteq> set (snd (dedupe_step r2 inv_t st h)) \<union> set hs"
    by (rule Cons.IH)
  then show ?case using dedupe_step_set [of r2 inv_t st h] by auto
qed

lemma dedupe_fold_length:
  "length (snd (foldl (dedupe_step r2 inv_t) st hs)) \<le> length (snd st) + length hs"
proof (induction hs arbitrary: st)
  case Nil
  then show ?case by simp
next
  case (Cons h hs)
  have "length (snd (foldl (dedupe_step r2 inv_t) (dedupe_step r2 inv_t st h) hs))
          \<le> length (snd (dedupe_step r2 inv_t st h)) + length hs"
    by (rule Cons.IH)
  then show ?case using dedupe_step_length [of r2 inv_t st h] by simp
qed

lemma update_values: "snd ` set (AList.update k v al) \<subseteq> insert v (snd ` set al)"
  by (induction al) auto

lemma update_length: "length (AList.update k v al) \<le> Suc (length al)"
  by (induction al) auto

lemma best_step_set: "snd ` set (best_step best h) \<subseteq> insert h (snd ` set best)"
proof -
  obtain x y d where h: "h = (x, y, d)" by (cases h)
  show ?thesis unfolding h best_step_def
    using update_values [of "(round6 x, round6 y)" "(x, y, d)" best]
    by (auto simp: Let_def split: option.splits)
qed

lemma best_step_length: "length (best_step best h) \<le> Suc (length best)"
proof -
  obtain x y d where h: "h = (x, y, d)" by (cases h)
  show ?thesis unfolding h best_step_def
    using update_length [of "(round6 x, round6 y)" "(x, y, d)" best]
    by (auto simp: Let_def split: option.splits)
qed

lemma best_fold_set: "snd ` set (foldl best_step best hs) \<subseteq> snd ` set best \<union> set hs"
proof (induction hs arbitrary: best)
  case Nil
  then show ?case by simp
next
  case (Cons h hs)
  have "snd ` set (foldl best_step (best_step best h) hs) \<subseteq> snd ` set (best_step best h) \<union> set hs"
    by (rule Cons.IH)
  then show ?case using best_step_set [of best h] by auto
qed

lemma best_fold_length: "length (foldl best_step best hs) \<le> length best + length hs"
proof (induction hs arbitrary: best)
  case Nil
  then show ?case by simp
next
  case (Cons h hs)
  have "length (foldl best_step (best_step best h) hs) \<le> length (best_step best h) + length hs"
    by (rule Cons.IH)
  then show ?case using best_step_length [of best h] by simp
qed

lemma dedupe_subset: "set (dedupe_holes_by_xy holes tol_xy) \<subseteq> set holes"
  using dedupe_fold_set [of "tol_xy * tol_xy" "1 / tol_xy" "(Map.empty, [])" holes]
    best_fold_set [of "[]" holes]
  by (simp add: dedupe_holes_by_xy_def)

lemma dedupe_length: "length (dedupe_holes_by_xy holes tol_xy) \<le> length holes"
  using dedupe_fold_length [of "tol_xy * tol_xy" "1 / tol_xy" "(Map.empty, [])" holes]
    best_fold_length [of "[]" holes]
  by (simp add: dedupe_holes_by_xy_def)

text \<open>The Euclidean distance between the centres of two holes.\<close>

definition hole_distance :: "hole \<Rightarrow> hole \<Rightarrow> real" where
  "hole_distance a b =
     (case (a, b) of ((x1, y1, d1), (x2, y2, d2)) \<Rightarrow>
        sqrt ((x1 - x2) * (x1 - x2) + (y1 - y2) * (y1 - y2)))"

text \<open>
  C8. When the search finds a stored hole within the tolerance of a new hit, the stored
  record is replaced as a whole (centre and diameter together) by the new hit if the new
  diameter is larger, and left as it is otherwise; nothing else changes. Every record of the
  output is therefore a record of the input. For the input
  \<open>[(0, 0, 0.6), (0.02, 0, 1.0), (0.04, 0, 0.8)]\<close> with tolerance 0.05 the output is the single
  hole \<open>(0.02, 0, 1.0)\<close>.
\<close>

theorem dedupe_keeps_largest:
  "(find_near r2 grid out (fst (cell inv_t x y)) (snd (cell inv_t x y)) x y = Some found \<longrightarrow>
      dedupe_step r2 inv_t (grid, out) (x, y, d) =
        (grid, if snd (snd (out ! found)) < d then out[found := (x, y, d)] else out))
   \<and> set (dedupe_holes_by_xy holes tol_xy) \<subseteq> set holes
   \<and> dedupe_holes_by_xy [(0, 0, 6 / 10), (2 / 100, 0, 1), (4 / 100, 0, 8 / 10)] (5 / 100)
       = [(2 / 100, 0, 1)]"
proof -
  have "dedupe_holes_by_xy [(0, 0, 6 / 10), (2 / 100, 0, 1), (4 / 100, 0, 8 / 10)] (5 / 100)
       = [(2 / 100, 0, 1)]"
    by (simp add: dedupe_holes_by_xy_def dedupe_step_def find_near_def neighbour_indices_def
        cell_def py_round_def Let_def)
  then show ?thesis using dedupe_step_found dedupe_subset by blast
qed

theorem dedupe_keeps_largest_witness:
  "find_near (1 / 400) [(0, 0) \<mapsto> [0]] [(0, 0, 3 / 5)]
       (fst (cell 20 (1 / 50) 0)) (snd (cell 20 (1 / 50) 0)) (1 / 50) 0 = Some 0
   \<and> snd (dedupe_step (1 / 400) 20 ([(0, 0) \<mapsto> [0]], [(0, 0, 3 / 5)]) (1 / 50, 0, 1))
       = [(1 / 50, 0, 1)]
   \<and> snd (dedupe_step (1 / 400) 20 ([(0, 0) \<mapsto> [0]], [(1 / 50, 0, 1)]) (1 / 25, 0, 4 / 5))
       = [(1 / 50, 0, 1)]"
  using dedupe_keeps_largest [of "1 / 400" "[(0, 0) \<mapsto> [0]]" "[(0, 0, 3 / 5)]" 20 "1 / 50" 0 0 1]
    dedupe_keeps_largest [of "1 / 400" "[(0, 0) \<mapsto> [0]]" "[(1 / 50, 0, 1)]" 20 "1 / 25" 0 0 "4 / 5"]
  by (simp add: find_near_def neighbour_indices_def cell_def py_round_def Let_def)

text \<open>
  C2, evaluated: with tolerance 1 the holes \<open>(0, 0)\<close> and \<open>(1.5, 0)\<close> are kept apart, then the
  larger hole at \<open>(0.75, 0)\<close> replaces the first one, and the output holds two holes at
  distance 0.75. The holes \<open>(0.5, 0)\<close> and \<open>(1.5, 0)\<close>, at distance exactly 1, fall into the
  cells 0 and 2 and are never compared.
\<close>

theorem dedupe_spacing_violated:
  "dedupe_holes_by_xy [(0, 0, 1), (3 / 2, 0, 1), (3 / 4, 0, 2)] 1 = [(3 / 4, 0, 2), (3 / 2, 0, 1)]
   \<and> hole_distance (3 / 4, 0, 2) (3 / 2, 0, 1) \<le> 1
   \<and> dedupe_holes_by_xy [(1 / 2, 0, 1), (3 / 2, 0, 1)] 1 = [(1 / 2, 0, 1), (3 / 2, 0, 1)]
   \<and> hole_distance (1 / 2, 0, 1) (3 / 2, 0, 1) \<le> 1"
  by (simp add: dedupe_holes_by_xy_def dedupe_step_def find_near_def neighbour_indices_def
      cell_def py_round_def Let_def hole_distance_def)

section \<open>Properties of the outline walk\<close>












section \<open>Properties of the path ordering\<close>

lemma scan_lines_mono:
  "\<not> below d (snd (snd st)) \<Longrightarrow> \<not> below d (snd (snd (scan_lines a cur xs st)))"
proof (induction a cur xs st rule: scan_lines.induct)
  case (1 a cur st)
  then show ?case by simp
next
  case (2 a cur i ls rest st)
  let ?d2s = "dist2 cur (hd ls)"
  let ?st1 = "if below ?d2s (snd (snd st)) then (i, False, Some ?d2s) else st"
  let ?d2e = "dist2 cur (last ls)"
  let ?st2 = "if a \<and> below ?d2e (snd (snd ?st1)) then (i, True, Some ?d2e) else ?st1"
  have s1: "\<not> below d (snd (snd ?st1))"
    using 2(2) by (auto simp: below_def split: option.splits)
  have s2: "\<not> below d (snd (snd ?st2))"
    using s1 by (auto simp: below_def split: option.splits)
  have "\<not> below d (snd (snd (scan_lines a cur rest ?st2)))"
    using 2(1) [OF refl refl refl refl s2] .
  then show ?case by (simp add: Let_def)
qed

lemma scan_lines_min:
  "(i, ls) \<in> set xs \<Longrightarrow>
   \<not> below (dist2 cur (hd ls)) (snd (snd (scan_lines True cur xs st)))
   \<and> \<not> below (dist2 cur (last ls)) (snd (snd (scan_lines True cur xs st)))"
proof (induction True cur xs st rule: scan_lines.induct)
  case (1 cur st)
  then show ?case by simp
next
  case (2 cur j l rest st)
  let ?d2s = "dist2 cur (hd l)"
  let ?st1 = "if below ?d2s (snd (snd st)) then (j, False, Some ?d2s) else st"
  let ?d2e = "dist2 cur (last l)"
  let ?st2 = "if True \<and> below ?d2e (snd (snd ?st1)) then (j, True, Some ?d2e) else ?st1"
  have unf: "scan_lines True cur ((j, l) # rest) st = scan_lines True cur rest ?st2"
    by (simp add: Let_def)
  show ?case
  proof (cases "(i, ls) \<in> set rest")
    case True
    from 2(1) [OF refl refl refl refl True] show ?thesis unfolding unf .
  next
    case False
    then have eq: "i = j" "ls = l" using 2(2) by auto
    have a1: "\<not> below ?d2s (snd (snd ?st1))"
      by (auto simp: below_def split: option.splits)
    have a2: "\<not> below ?d2s (snd (snd ?st2))"
      using a1 by (auto simp: below_def split: option.splits)
    have b2: "\<not> below ?d2e (snd (snd ?st2))"
      by (auto simp: below_def split: option.splits)
    show ?thesis unfolding unf eq
      using scan_lines_mono [OF a2, of True cur rest] scan_lines_mono [OF b2, of True cur rest]
      by simp
  qed
qed

lemma scan_lines_attained:
  "scan_lines a cur xs st = st \<or>
   (\<exists>(i, ls) \<in> set xs. fst (scan_lines a cur xs st) = i
      \<and> snd (snd (scan_lines a cur xs st))
          = Some (dist2 cur (if fst (snd (scan_lines a cur xs st)) then last ls else hd ls)))"
proof (induction a cur xs st rule: scan_lines.induct)
  case (1 a cur st)
  then show ?case by simp
next
  case (2 a cur j l rest st)
  let ?d2s = "dist2 cur (hd l)"
  let ?st1 = "if below ?d2s (snd (snd st)) then (j, False, Some ?d2s) else st"
  let ?d2e = "dist2 cur (last l)"
  let ?st2 = "if a \<and> below ?d2e (snd (snd ?st1)) then (j, True, Some ?d2e) else ?st1"
  have unf: "scan_lines a cur ((j, l) # rest) st = scan_lines a cur rest ?st2"
    by (simp add: Let_def)
  have st2: "?st2 = st \<or> (fst ?st2 = j \<and> snd (snd ?st2) = Some (dist2 cur (if fst (snd ?st2) then last l else hd l)))"
    by auto
  from 2 [OF refl refl refl refl]
  have ih: "scan_lines a cur rest ?st2 = ?st2 \<or>
     (\<exists>(i, ls) \<in> set rest. fst (scan_lines a cur rest ?st2) = i
        \<and> snd (snd (scan_lines a cur rest ?st2))
            = Some (dist2 cur (if fst (snd (scan_lines a cur rest ?st2)) then last ls else hd ls)))" .
  then show ?case
  proof
    assume e: "scan_lines a cur rest ?st2 = ?st2"
    from st2 show ?thesis
    proof
      assume "?st2 = st"
      then show ?thesis unfolding unf e by simp
    next
      assume "fst ?st2 = j \<and> snd (snd ?st2) = Some (dist2 cur (if fst (snd ?st2) then last l else hd l))"
      then have "\<exists>(i, ls) \<in> set ((j, l) # rest). fst ?st2 = i
          \<and> snd (snd ?st2) = Some (dist2 cur (if fst (snd ?st2) then last ls else hd ls))"
        by simp
      then show ?thesis unfolding unf e by blast
    qed
  next
    assume "\<exists>(i, ls) \<in> set rest. fst (scan_lines a cur rest ?st2) = i
        \<and> snd (snd (scan_lines a cur rest ?st2))
            = Some (dist2 cur (if fst (snd (scan_lines a cur rest ?st2)) then last ls else hd ls))"
    then have "\<exists>(i, ls) \<in> set ((j, l) # rest). fst (scan_lines a cur rest ?st2) = i
        \<and> snd (snd (scan_lines a cur rest ?st2))
            = Some (dist2 cur (if fst (snd (scan_lines a cur rest ?st2)) then last ls else hd ls))"
      by auto
    then show ?thesis unfolding unf by blast
  qed
qed

lemma order_loop_step:
  assumes "remaining \<noteq> []"
  shows "order_loop a cur remaining ordered =
     order_loop a
       (last (if fst (snd (scan_lines a cur (enumerate 0 remaining) (0, False, None)))
              then rev (remaining ! fst (scan_lines a cur (enumerate 0 remaining) (0, False, None)))
              else remaining ! fst (scan_lines a cur (enumerate 0 remaining) (0, False, None))))
       (take (fst (scan_lines a cur (enumerate 0 remaining) (0, False, None))) remaining
          @ drop (Suc (fst (scan_lines a cur (enumerate 0 remaining) (0, False, None)))) remaining)
       (ordered @ [if fst (snd (scan_lines a cur (enumerate 0 remaining) (0, False, None)))
              then rev (remaining ! fst (scan_lines a cur (enumerate 0 remaining) (0, False, None)))
              else remaining ! fst (scan_lines a cur (enumerate 0 remaining) (0, False, None))])"
  using assms by (subst order_loop.simps) (simp add: Let_def)

lemma order_loop_app:
  "order_loop a cur remaining (xs @ ordered) = xs @ order_loop a cur remaining ordered"
proof (induction a cur remaining ordered arbitrary: xs rule: order_loop.induct)
  case (1 a cur remaining ordered)
  show ?case
  proof (cases "remaining = []")
    case True
    then show ?thesis by (simp add: order_loop.simps)
  next
    case False
    let ?st = "scan_lines a cur (enumerate 0 remaining) (0, False, None)"
    let ?pick = "if fst (snd ?st) then rev (remaining ! fst ?st) else remaining ! fst ?st"
    let ?rem = "take (fst ?st) remaining @ drop (Suc (fst ?st)) remaining"
    have "order_loop a cur remaining (xs @ ordered)
            = order_loop a (last ?pick) ?rem (xs @ (ordered @ [?pick]))"
      using order_loop_step [OF False, of a cur "xs @ ordered"] by simp
    also have "\<dots> = xs @ order_loop a (last ?pick) ?rem (ordered @ [?pick])"
      using 1 [OF False refl refl refl refl] .
    also have "\<dots> = xs @ order_loop a cur remaining ordered"
      using order_loop_step [OF False, of a cur ordered] by simp
    finally show ?thesis .
  qed
qed

text \<open>The polylines that pass the filter of \<^verbatim>\<open>order_lines_nearest\<close>.\<close>

definition valid_lines :: "linestring option list \<Rightarrow> linestring list" where
  "valid_lines lines =
     concat (map (\<lambda>l. case l of None \<Rightarrow> []
               | Some ls \<Rightarrow> if ls \<noteq> [] \<and> 2 \<le> length ls then [ls] else []) lines)"

lemma order_lines_nearest_loop:
  "order_lines_nearest lines start_xy a =
     (if valid_lines lines = [] then [] else order_loop a start_xy (valid_lines lines) [])"
  by (cases "lines = []") (simp_all add: order_lines_nearest_def valid_lines_def Let_def)

text \<open>
  The state \<open>r\<close> of the scan is a first hit of the list \<open>xs\<close> under the bound \<open>b0\<close>: it holds
  the index of an entry of the list and the distance of one of its two ends; this distance is
  below the bound and strictly below the distances of both ends of every entry before it; and
  the end point is held only when it is strictly closer than the start point of the entry.
\<close>

definition first_hit ::
  "point \<Rightarrow> (nat \<times> linestring) list \<Rightarrow> real option \<Rightarrow> nat \<times> bool \<times> real option \<Rightarrow> bool" where
  "first_hit c xs b0 r \<longleftrightarrow>
     (\<exists>pre ls post d. xs = pre @ (fst r, ls) # post
        \<and> snd (snd r) = Some d
        \<and> d = dist2 c (if fst (snd r) then last ls else hd ls)
        \<and> (fst (snd r) \<longrightarrow> d < dist2 c (hd ls))
        \<and> (\<forall>(j, l) \<in> set pre. d < dist2 c (hd l) \<and> d < dist2 c (last l))
        \<and> below d b0)"

lemma first_hit_here:
  assumes "d = dist2 c (if flip then last l else hd l)" "flip \<longrightarrow> d < dist2 c (hd l)" "below d b0"
  shows "first_hit c ((j, l) # rest) b0 (j, flip, Some d)"
  unfolding first_hit_def using assms
  by (intro exI [of _ "[]"] exI [of _ l] exI [of _ rest] exI [of _ d]) simp

lemma first_hit_cons:
  assumes h: "first_hit c rest b2 r"
    and ns: "\<not> below (dist2 c (hd l)) b2" and ne: "\<not> below (dist2 c (last l)) b2"
    and mono: "\<And>d. below d b2 \<Longrightarrow> below d b0"
  shows "first_hit c ((j, l) # rest) b0 r"
proof -
  from h obtain pre ls post d where p: "rest = pre @ (fst r, ls) # post"
    "snd (snd r) = Some d" "d = dist2 c (if fst (snd r) then last ls else hd ls)"
    "fst (snd r) \<longrightarrow> d < dist2 c (hd ls)"
    "\<forall>(j, l) \<in> set pre. d < dist2 c (hd l) \<and> d < dist2 c (last l)"
    "below d b2"
    unfolding first_hit_def by blast
  obtain b where b: "b2 = Some b" using ns by (cases b2) (simp_all add: below_def)
  have ds: "d < dist2 c (hd l)" and de: "d < dist2 c (last l)"
    using p(6) ns ne by (simp_all add: b below_def)
  have m: "below d b0" using p(6) by (rule mono)
  show ?thesis
    unfolding first_hit_def using p(1-5) ds de m
    by (intro exI [of _ "(j, l) # pre"] exI [of _ ls] exI [of _ post] exI [of _ d]) simp
qed

lemma scan_lines_first:
  "scan_lines True c xs st = st \<or> first_hit c xs (snd (snd st)) (scan_lines True c xs st)"
proof (induction True c xs st rule: scan_lines.induct)
  case (1 c st)
  then show ?case by simp
next
  case (2 c j l rest st)
  let ?d2s = "dist2 c (hd l)"
  let ?st1 = "if below ?d2s (snd (snd st)) then (j, False, Some ?d2s) else st"
  let ?d2e = "dist2 c (last l)"
  let ?st2 = "if True \<and> below ?d2e (snd (snd ?st1)) then (j, True, Some ?d2e) else ?st1"
  let ?r = "scan_lines True c rest ?st2"
  have unf: "scan_lines True c ((j, l) # rest) st = ?r"
    by (simp add: Let_def)
  have ns: "\<not> below ?d2s (snd (snd ?st2))" and ne: "\<not> below ?d2e (snd (snd ?st2))"
    by (auto simp: below_def split: option.splits)
  have mono: "below d (snd (snd st))" if "below d (snd (snd ?st2))" for d
    using that by (auto simp: below_def split: option.splits if_splits)
  have st2: "?st2 = st \<or> first_hit c ((j, l) # rest) (snd (snd st)) ?st2"
  proof (cases "below ?d2s (snd (snd st))")
    case s: True
    show ?thesis
    proof (cases "?d2e < ?d2s")
      case True
      then have e: "?st2 = (j, True, Some ?d2e)" using s by (simp add: below_def)
      have "below ?d2e (snd (snd st))" using s True by (auto simp: below_def split: option.splits)
      then have "first_hit c ((j, l) # rest) (snd (snd st)) (j, True, Some ?d2e)"
        using True by (intro first_hit_here) simp_all
      then show ?thesis unfolding e by (rule disjI2)
    next
      case False
      then have e: "?st2 = (j, False, Some ?d2s)" using s by (simp add: below_def)
      have "first_hit c ((j, l) # rest) (snd (snd st)) (j, False, Some ?d2s)"
        using s by (intro first_hit_here) simp_all
      then show ?thesis unfolding e by (rule disjI2)
    qed
  next
    case s: False
    show ?thesis
    proof (cases "below ?d2e (snd (snd st))")
      case True
      then have e: "?st2 = (j, True, Some ?d2e)" using s by simp
      have "?d2e < ?d2s" using True s by (auto simp: below_def split: option.splits)
      then have "first_hit c ((j, l) # rest) (snd (snd st)) (j, True, Some ?d2e)"
        using True by (intro first_hit_here) simp_all
      then show ?thesis unfolding e by (rule disjI2)
    next
      case False
      then have "?st2 = st" using s by simp
      then show ?thesis by (rule disjI1)
    qed
  qed
  from 2 [OF refl refl refl refl]
  have ih: "?r = ?st2 \<or> first_hit c rest (snd (snd ?st2)) ?r" .
  then show ?case
  proof
    assume e: "?r = ?st2"
    show ?thesis unfolding unf e using st2 .
  next
    assume "first_hit c rest (snd (snd ?st2)) ?r"
    then have "first_hit c ((j, l) # rest) (snd (snd st)) ?r"
      using ns ne mono by (rule first_hit_cons)
    then show ?thesis unfolding unf by (rule disjI2)
  qed
qed

lemma order_hop:
  assumes ne: "remaining \<noteq> []" and nonempty: "\<forall>l \<in> set remaining. l \<noteq> []"
  shows "\<exists>i flip. i < length remaining
     \<and> order_loop True cur remaining [] =
         (if flip then rev (remaining ! i) else remaining ! i)
           # order_loop True (last (if flip then rev (remaining ! i) else remaining ! i))
               (take i remaining @ drop (Suc i) remaining) []
     \<and> (\<forall>l \<in> set remaining.
           dist2 cur (hd (if flip then rev (remaining ! i) else remaining ! i)) \<le> dist2 cur (hd l)
         \<and> dist2 cur (hd (if flip then rev (remaining ! i) else remaining ! i)) \<le> dist2 cur (last l))
     \<and> (\<forall>j < i.
           dist2 cur (hd (if flip then rev (remaining ! i) else remaining ! i))
             < dist2 cur (hd (remaining ! j))
         \<and> dist2 cur (hd (if flip then rev (remaining ! i) else remaining ! i))
             < dist2 cur (last (remaining ! j)))
     \<and> (flip \<longrightarrow> dist2 cur (last (remaining ! i)) < dist2 cur (hd (remaining ! i)))"
proof -
  let ?xs = "enumerate 0 remaining"
  let ?st = "scan_lines True cur ?xs (0, False, None)"
  let ?i = "fst ?st" and ?flip = "fst (snd ?st)"
  let ?pick = "if ?flip then rev (remaining ! ?i) else remaining ! ?i"
  have il: "?i < length remaining"
    using ne by (intro scan_lines_index) (auto simp: in_set_enumerate_eq)
  have mem0: "(0, remaining ! 0) \<in> set ?xs" using ne by (simp add: in_set_enumerate_eq)
  have "\<not> below (dist2 cur (hd (remaining ! 0))) (snd (snd ?st))"
    using scan_lines_min [OF mem0] by blast
  then have changed: "?st \<noteq> (0, False, None)"
    by (auto simp: below_def)
  then have "first_hit cur ?xs (snd (snd (0 :: nat, False, None :: real option))) ?st"
    using scan_lines_first [of cur ?xs "(0, False, None)"] by blast
  then obtain pre ls post d where h: "?xs = pre @ (?i, ls) # post"
    "snd (snd ?st) = Some d" "d = dist2 cur (if ?flip then last ls else hd ls)"
    "?flip \<longrightarrow> d < dist2 cur (hd ls)"
    "\<forall>(j, l) \<in> set pre. d < dist2 cur (hd l) \<and> d < dist2 cur (last l)"
    unfolding first_hit_def by blast
  define i where "i = ?i"
  have h1: "?xs = pre @ (i, ls) # post" using h(1) unfolding i_def .
  have nth: "?xs ! k = (k, remaining ! k)" if "k < length remaining" for k
    using that by (simp add: nth_enumerate_eq)
  have lp: "length pre < length remaining"
    using arg_cong [OF h1, of length] by simp
  have a: "?xs ! length pre = (i, ls)" unfolding h1 by simp
  have b: "?xs ! length pre = (length pre, remaining ! length pre)" using lp by (rule nth)
  have c: "(i, ls) = (length pre, remaining ! length pre)" using a [symmetric] b by (rule trans)
  have il': "i = length pre" using c by simp
  have "ls = remaining ! length pre" using c by simp
  then have "ls = remaining ! i" unfolding il' .
  then have ip: "?i = length pre" and ls: "ls = remaining ! ?i"
    using il' unfolding i_def by simp_all
  have pre: "(j, remaining ! j) \<in> set pre" if "j < ?i" for j
  proof -
    have jl: "j < length pre" using that ip by simp
    then have "pre ! j = ?xs ! j" unfolding h1 by (simp add: nth_append)
    also have "\<dots> = (j, remaining ! j)" using jl lp by (intro nth) simp
    finally show ?thesis using jl by (metis nth_mem)
  qed
  have pne: "remaining ! ?i \<noteq> []" using nonempty il by simp
  have entry: "hd ?pick = (if ?flip then last ls else hd ls)"
    using ls pne by (simp add: hd_rev)
  have dd: "d = dist2 cur (hd ?pick)" using h(3) entry by simp
  have bd: "snd (snd ?st) = Some (dist2 cur (hd ?pick))" using h(2) dd by simp
  have all: "dist2 cur (hd ?pick) \<le> dist2 cur (hd l) \<and> dist2 cur (hd ?pick) \<le> dist2 cur (last l)"
    if lm: "l \<in> set remaining" for l
  proof -
    obtain k where k: "k < length remaining" "remaining ! k = l"
      using lm by (auto simp: in_set_conv_nth)
    then have "(k, l) \<in> set ?xs" by (simp add: in_set_enumerate_eq)
    from scan_lines_min [OF this, of cur "(0, False, None)"] show ?thesis
      unfolding bd by (simp add: below_def)
  qed
  have before: "dist2 cur (hd ?pick) < dist2 cur (hd (remaining ! j))
      \<and> dist2 cur (hd ?pick) < dist2 cur (last (remaining ! j))" if "j < ?i" for j
    using h(5) pre [OF that] unfolding dd by auto
  have fl: "?flip \<longrightarrow> dist2 cur (last (remaining ! ?i)) < dist2 cur (hd (remaining ! ?i))"
    using h(3,4) ls by simp
  have "order_loop True cur remaining [] = order_loop True (last ?pick)
          (take ?i remaining @ drop (Suc ?i) remaining) ([?pick] @ [])"
    using order_loop_step [OF ne, of True cur "[]"] by simp
  also have "\<dots> = [?pick] @ order_loop True (last ?pick) (take ?i remaining @ drop (Suc ?i) remaining) []"
    by (rule order_loop_app)
  finally have eq: "order_loop True cur remaining [] =
      ?pick # order_loop True (last ?pick) (take ?i remaining @ drop (Suc ?i) remaining) []"
    by simp
  show ?thesis
    using il eq all before fl
    by (intro exI [of _ ?i] exI [of _ ?flip]) blast
qed

text \<open>
  The cursor travel of visiting polylines in a given order: from the cursor to the first
  point of the next polyline, the cursor then being at its last point.
\<close>

fun travel :: "point \<Rightarrow> linestring list \<Rightarrow> real" where
  "travel cur [] = 0"
| "travel cur (l # ls) = sqrt (dist2 cur (hd l)) + travel (last l) ls"

text \<open>
  C7 (amended). The ordering is the greedy loop over the polylines with at least two points.
  At every iteration the polyline placed next is one of the remaining ones, reversed or not,
  and its entry point is a nearest endpoint: no start or end point of a remaining polyline
  is closer to the cursor. First seen wins on equal distances: both ends of every polyline
  before the placed one in the remaining list are strictly farther than the entry point, and
  the placed polyline is reversed only when its end is strictly closer than its start. The
  rest of the output is the same loop run from the end of the placed polyline on the other
  polylines.
\<close>

theorem nearest_hop_is_local:
  "order_lines_nearest lines start_xy True =
     (if valid_lines lines = [] then [] else order_loop True start_xy (valid_lines lines) [])
   \<and> (remaining \<noteq> [] \<and> (\<forall>l \<in> set remaining. l \<noteq> []) \<longrightarrow>
        (\<exists>i flip. i < length remaining
           \<and> order_loop True cur remaining [] =
               (if flip then rev (remaining ! i) else remaining ! i)
                 # order_loop True (last (if flip then rev (remaining ! i) else remaining ! i))
                     (take i remaining @ drop (Suc i) remaining) []
           \<and> (\<forall>l \<in> set remaining.
                 dist2 cur (hd (if flip then rev (remaining ! i) else remaining ! i)) \<le> dist2 cur (hd l)
               \<and> dist2 cur (hd (if flip then rev (remaining ! i) else remaining ! i)) \<le> dist2 cur (last l))
           \<and> (\<forall>j < i.
                 dist2 cur (hd (if flip then rev (remaining ! i) else remaining ! i))
                   < dist2 cur (hd (remaining ! j))
               \<and> dist2 cur (hd (if flip then rev (remaining ! i) else remaining ! i))
                   < dist2 cur (last (remaining ! j)))
           \<and> (flip \<longrightarrow> dist2 cur (last (remaining ! i)) < dist2 cur (hd (remaining ! i)))))"
proof (intro conjI impI)
  show "order_lines_nearest lines start_xy True =
     (if valid_lines lines = [] then [] else order_loop True start_xy (valid_lines lines) [])"
    by (rule order_lines_nearest_loop)
next
  assume a: "remaining \<noteq> [] \<and> (\<forall>l \<in> set remaining. l \<noteq> [])"
  then have ne: "remaining \<noteq> []" and nonempty: "\<forall>l \<in> set remaining. l \<noteq> []" by simp_all
  from ne nonempty show "\<exists>i flip. i < length remaining
           \<and> order_loop True cur remaining [] =
               (if flip then rev (remaining ! i) else remaining ! i)
                 # order_loop True (last (if flip then rev (remaining ! i) else remaining ! i))
                     (take i remaining @ drop (Suc i) remaining) []
           \<and> (\<forall>l \<in> set remaining.
                 dist2 cur (hd (if flip then rev (remaining ! i) else remaining ! i)) \<le> dist2 cur (hd l)
               \<and> dist2 cur (hd (if flip then rev (remaining ! i) else remaining ! i)) \<le> dist2 cur (last l))
           \<and> (\<forall>j < i.
                 dist2 cur (hd (if flip then rev (remaining ! i) else remaining ! i))
                   < dist2 cur (hd (remaining ! j))
               \<and> dist2 cur (hd (if flip then rev (remaining ! i) else remaining ! i))
                   < dist2 cur (last (remaining ! j)))
           \<and> (flip \<longrightarrow> dist2 cur (last (remaining ! i)) < dist2 cur (hd (remaining ! i)))"
    by (rule order_hop)
qed

lemmas order_eval = order_lines_nearest_def order_loop.simps dist2_def below_def Let_def

theorem nearest_hop_is_local_witness:
  "order_lines_nearest [Some [(0, 2), (1, 2)], Some [(1, 0), (1, - 10)]] (0, 0) True
     = [[(1, 0), (1, - 10)], [(1, 2), (0, 2)]]
   \<and> order_loop True (0, 0) [[(0, 2), (1, 2)], [(1, 0), (1, - 10)]] []
     = [(1, 0), (1, - 10)] # order_loop True (1, - 10) [[(0, 2), (1, 2)]] []
   \<and> dist2 (0, 0) (1, 0) \<le> dist2 (0, 0) (0, 2) \<and> dist2 (0, 0) (1, 0) \<le> dist2 (0, 0) (1, 2)
   \<and> dist2 (0, 0) (1, 0) \<le> dist2 (0, 0) (1, - 10)"
  using nearest_hop_is_local [of "[Some [(0, 2), (1, 2)], Some [(1, 0), (1, - 10)]]" "(0, 0)"
      "[[(0, 2), (1, 2)], [(1, 0), (1, - 10)]]" "(0, 0)"]
  by (simp add: order_eval)

theorem travel_counterexample:
  "travel (0, 0) (order_lines_nearest [Some [(0, 2), (1, 2)], Some [(1, 0), (1, - 10)]] (0, 0) True) = 13
   \<and> travel (0, 0) [[(0, 2), (1, 2)], [(1, 0), (1, - 10)]] = 4
   \<and> \<not> travel (0, 0) (order_lines_nearest [Some [(0, 2), (1, 2)], Some [(1, 0), (1, - 10)]] (0, 0) True)
         \<le> travel (0, 0) [[(0, 2), (1, 2)], [(1, 0), (1, - 10)]]"
proof -
  have o: "order_lines_nearest [Some [(0, 2), (1, 2)], Some [(1, 0), (1, - 10)]] (0, 0) True
     = [[(1, 0), (1, - 10)], [(1, 2), (0, 2)]]"
    by (simp add: order_eval)
  have s144: "sqrt 144 = 12" by (rule real_sqrt_unique) simp_all
  have s4: "sqrt 4 = 2" by (rule real_sqrt_unique) simp_all
  show ?thesis unfolding o by (simp add: dist2_def s144 s4)
qed

section \<open>Properties of the fixed-point decoders\<close>

lemma digit_char_props:
  assumes "d < 10"
  shows "is_digit (digit_char d)" and "digit_val (digit_char d) = d"
proof -
  have "d \<in> {0, 1, 2, 3, 4, 5, 6, 7, 8, 9}" using assms by auto
  then show "is_digit (digit_char d)" and "digit_val (digit_char d) = d"
    by (auto simp: is_digit_def digit_val_def digit_char_def)
qed

lemma digits_val_snoc: "digits_val (s @ [c]) = 10 * digits_val s + digit_val c"
  by (simp add: digits_val_def)

lemma str_nat_props:
  "str_nat n \<noteq> [] \<and> (\<forall>c \<in> set (str_nat n). is_digit c) \<and> digits_val (str_nat n) = n"
proof (induction n rule: str_nat.induct)
  case (1 n)
  show ?case
  proof (cases "n < 10")
    case True
    then have "str_nat n = [digit_char n]" by (subst str_nat.simps) simp
    then show ?thesis using digit_char_props [OF True] by (simp add: digits_val_def)
  next
    case False
    have m: "n mod 10 < 10" by simp
    have e: "str_nat n = str_nat (n div 10) @ [digit_char (n mod 10)]"
      using False by (subst str_nat.simps) simp
    from 1 [OF False] show ?thesis
      unfolding e using digit_char_props [OF m] by (simp add: digits_val_snoc)
  qed
qed

lemma not_digit_point: "\<not> is_digit CHR ''.''" and not_digit_minus: "\<not> is_digit CHR ''-''"
  and not_digit_plus: "\<not> is_digit CHR ''+''"
  by (simp_all add: is_digit_def)

lemma digit_not_space: "is_digit c \<Longrightarrow> \<not> is_space c"
  by (auto simp: is_digit_def is_space_def)

lemma split_sign_digits:
  assumes "s \<noteq> []" "\<forall>c \<in> set s. is_digit c"
  shows "split_sign s = (False, s)"
proof -
  obtain c r where s: "s = c # r" using assms(1) by (cases s) auto
  then have "is_digit c" using assms(2) by simp
  then have "c \<noteq> CHR ''-''" "c \<noteq> CHR ''+''" using not_digit_minus not_digit_plus by auto
  then show ?thesis by (simp add: split_sign_def s)
qed

lemma py_int_digits:
  assumes "s \<noteq> []" "\<forall>c \<in> set s. is_digit c"
  shows "py_int s = Inr (int (digits_val s))"
  using assms by (simp add: py_int_def split_sign_digits)

lemma py_float_decimal:
  assumes "\<forall>c \<in> set fp. is_digit c"
  shows "py_float (str_int (int n) @ ''.'' @ fp)
           = Inr (real n + real (digits_val fp) / 10 ^ length fp)"
proof -
  let ?ip = "str_nat n"
  have ip: "?ip \<noteq> []" "\<forall>c \<in> set ?ip. is_digit c" "digits_val ?ip = n"
    using str_nat_props [of n] by blast+
  have si: "str_int (int n) = ?ip" by (simp add: str_int_def)
  obtain c r where cr: "?ip = c # r" using ip(1) by (cases ?ip) auto
  then have "is_digit c" using ip(2) by simp
  then have c: "c \<noteq> CHR ''-''" "c \<noteq> CHR ''+''" using not_digit_minus not_digit_plus by auto
  have sp: "split_sign (?ip @ ''.'' @ fp) = (False, ?ip @ ''.'' @ fp)"
    using c by (simp add: split_sign_def cr)
  have tw: "takeWhile is_digit (?ip @ CHR ''.'' # fp) = ?ip"
    using ip(2) not_digit_point by (simp add: takeWhile_append2)
  have dw: "dropWhile is_digit (?ip @ CHR ''.'' # fp) = CHR ''.'' # fp"
    using ip(2) not_digit_point by (simp add: dropWhile_append2)
  have "py_float (?ip @ ''.'' @ fp)
          = Inr (real (digits_val ?ip) + real (digits_val fp) / 10 ^ length fp)"
    unfolding py_float_def sp using assms ip(1) by (simp add: tw dw Let_def)
  then show ?thesis unfolding si ip(3) .
qed

lemma dropWhile_self: "xs \<noteq> [] \<Longrightarrow> \<not> P (hd xs) \<Longrightarrow> dropWhile P xs = xs"
  by (cases xs) auto

lemma strip_id:
  assumes "s \<noteq> []" "\<not> is_space (hd s)" "\<not> is_space (last s)"
  shows "strip s = s"
proof -
  have a: "dropWhile is_space s = s" using assms(1,2) by (rule dropWhile_self)
  have "rev s \<noteq> []" using assms(1) by simp
  moreover have "\<not> is_space (hd (rev s))" using assms(1,3) by (simp add: hd_rev)
  ultimately have "dropWhile is_space (rev s) = rev s" by (rule dropWhile_self)
  then show ?thesis by (simp add: strip_def a)
qed

lemma parse_fixed_as_gerber:
  "parse_fixed self tok =
     parse_rs274x_coord tok (fst (format self)) (snd (format self))
       (if zero_suppression self = ''leading'' then ''L'' else ''T'')"
proof (cases "zero_suppression self = ''leading''")
  case True
  then show ?thesis
    unfolding parse_fixed_def parse_rs274x_coord_def Let_def
    by (simp split del: if_split cong: if_cong option.case_cong sum.case_cong)
next
  case False
  then show ?thesis
    unfolding parse_fixed_def parse_rs274x_coord_def Let_def
    by (simp split del: if_split cong: if_cong option.case_cong sum.case_cong)
qed

text \<open>A digit token: an optional minus sign followed by at least one digit.\<close>

definition digit_token :: "string \<Rightarrow> bool" where
  "digit_token t \<longleftrightarrow>
     (let body = (if t \<noteq> [] \<and> hd t = CHR ''-'' then tl t else t)
      in body \<noteq> [] \<and> (\<forall>c \<in> set body. is_digit c))"

datatype zero_mode = ZL | ZT

text \<open>
  The decoding as the specification words it: strip the sign, pad the digits with zeros to
  \<open>int_digits + dec_digits\<close> (on the left for L, on the right for T), keep the rightmost
  \<open>int_digits + dec_digits\<close> digits of a longer token, split at \<open>int_digits\<close>, and read
  sign * integer\_part.fractional\_part.
\<close>

definition fixed_point_spec :: "string \<Rightarrow> nat \<Rightarrow> nat \<Rightarrow> zero_mode \<Rightarrow> real" where
  "fixed_point_spec token int_digits dec_digits zm =
     (let neg = (token \<noteq> [] \<and> hd token = CHR ''-'');
          digits = (if neg then tl token else token);
          total = int_digits + dec_digits;
          padded = (case zm of ZL \<Rightarrow> rjust0 total digits | ZT \<Rightarrow> ljust0 total digits);
          kept = drop (length padded - total) padded;
          integer_part = take int_digits kept;
          fractional_part = drop int_digits kept;
          v = real (digits_val integer_part)
              + real (digits_val fractional_part) / 10 ^ length fractional_part
      in if neg then - v else v)"

lemma digits_val_zero: "digits_val ''0'' = 0" and digits_val_Nil: "digits_val [] = 0"
  by (simp_all add: digits_val_def digit_val_def)

lemma is_digit_zero: "is_digit CHR ''0''"
  by (simp add: is_digit_def)

text \<open>The two halves of both decoders: the digits kept, and their reading.\<close>

definition keep_digits :: "int \<Rightarrow> bool \<Rightarrow> string \<Rightarrow> string" where
  "keep_digits width lead s =
     (let s1 = (if width < int (length s) then drop (length s - nat width) s else s)
      in if int (length s1) < width
         then if lead then rjust0 (nat width) s1 else ljust0 (nat width) s1
         else s1)"

definition read_digits :: "bool \<Rightarrow> int \<Rightarrow> int \<Rightarrow> string \<Rightarrow> py_exn + real" where
  "read_digits neg int_d dec_d s =
     (if dec_d \<le> 0 then
        (case py_int s of Inl e \<Rightarrow> Inl e
         | Inr v \<Rightarrow> Inr (if neg then - real_of_int v else real_of_int v))
      else
        let ip = (if 0 < int_d then take (nat int_d) s else ''0'');
            fp = (if 0 < int_d then drop (nat int_d) s else s);
            ip = (if ip = [] then ''0'' else ip)
        in case py_int ip of Inl e \<Rightarrow> Inl e
           | Inr n \<Rightarrow> (case py_float (str_int n @ ''.'' @ fp) of Inl e \<Rightarrow> Inl e
                        | Inr v \<Rightarrow> Inr (if neg then - v else v)))"

lemma parse_rs274x_coord_halves:
  assumes "strip t = t" "t \<noteq> []" "CHR ''.'' \<notin> set t"
  shows "parse_rs274x_coord (Some t) int_d dec_d zm
           = read_digits (hd t = CHR ''-'') int_d dec_d
               (keep_digits
                  (if int_d + dec_d \<le> 0
                   then max 1 (int (length (if hd t = CHR ''-'' then tl t else t)))
                   else int_d + dec_d)
                  (zm = ''L'' \<or> zm = ''l'')
                  (if hd t = CHR ''-'' then tl t else t))"
  using assms
  unfolding parse_rs274x_coord_def read_digits_def keep_digits_def Let_def
  by (simp split del: if_split cong: if_cong sum.case_cong)

lemma read_digits_value:
  assumes K: "\<forall>c \<in> set K. is_digit c" and len: "length K = nat (int_d + dec_d)"
    and nn: "0 \<le> int_d" "0 \<le> dec_d" "1 \<le> int_d + dec_d"
  shows "read_digits neg int_d dec_d K
         = Inr (if neg
                then - (real (digits_val (take (nat int_d) K))
                        + real (digits_val (drop (nat int_d) K)) / 10 ^ length (drop (nat int_d) K))
                else real (digits_val (take (nat int_d) K))
                        + real (digits_val (drop (nat int_d) K)) / 10 ^ length (drop (nat int_d) K))"
proof (cases "dec_d \<le> 0")
  case True
  then have d0: "dec_d = 0" using nn by simp
  then have ne: "K \<noteq> []" using len nn by auto
  have tk: "take (nat int_d) K = K" "drop (nat int_d) K = []" using len d0 by simp_all
  show ?thesis using True py_int_digits [OF ne K] by (simp add: read_digits_def tk digits_val_Nil)
next
  case False
  then have dpos: "0 < dec_d" by simp
  show ?thesis
  proof (cases "0 < int_d")
    case True
    let ?ip = "take (nat int_d) K" and ?fp = "drop (nat int_d) K"
    have ipne: "?ip \<noteq> []" using True len dpos by auto
    have ipd: "\<forall>c \<in> set ?ip. is_digit c" using K by (meson in_set_takeD)
    have fpd: "\<forall>c \<in> set ?fp. is_digit c" using K by (meson in_set_dropD)
    have pi: "py_int ?ip = Inr (int (digits_val ?ip))" using ipne ipd by (rule py_int_digits)
    show ?thesis
      using False True ipne pi py_float_decimal [OF fpd, of "digits_val ?ip"]
      by (simp add: read_digits_def Let_def)
  next
    case i0: False
    then have i: "int_d = 0" using nn by simp
    have z: "''0'' \<noteq> []" "\<forall>c \<in> set ''0''. is_digit c" using is_digit_zero by simp_all
    have pi: "py_int ''0'' = Inr (int (digits_val ''0''))" using z by (rule py_int_digits)
    show ?thesis
      using False i pi py_float_decimal [OF K, of 0]
      by (simp add: read_digits_def Let_def digits_val_zero digits_val_Nil)
  qed
qed


text \<open>The digits kept by the decoders and by the worded procedure are the same.\<close>

lemma kept_digits:
  "keep_digits (int n) lead ds
     = drop (length ((if lead then rjust0 else ljust0) n ds) - n) ((if lead then rjust0 else ljust0) n ds)"
  by (auto simp: keep_digits_def Let_def rjust0_def ljust0_def)

lemma kept_digits_props:
  assumes "\<forall>c \<in> set ds. is_digit c"
  shows "length (keep_digits (int n) lead ds) = n"
    and "\<forall>c \<in> set (keep_digits (int n) lead ds). is_digit c"
proof -
  let ?p = "(if lead then rjust0 else ljust0) n ds"
  show "length (keep_digits (int n) lead ds) = n"
    unfolding kept_digits by (auto simp: rjust0_def ljust0_def)
  have "\<forall>c \<in> set ?p. is_digit c"
    using assms is_digit_zero by (auto simp: rjust0_def ljust0_def)
  then show "\<forall>c \<in> set (keep_digits (int n) lead ds). is_digit c"
    unfolding kept_digits by (meson in_set_dropD)
qed

lemma decode_digits:
  assumes ne: "ds \<noteq> []" and dg: "\<forall>c \<in> set ds. is_digit c"
    and nn: "0 \<le> int_d" "0 \<le> dec_d" "1 \<le> int_d + dec_d"
    and t: "t = (if neg then CHR ''-'' # ds else ds)"
  shows "parse_rs274x_coord (Some t) int_d dec_d zm
           = Inr (fixed_point_spec t (nat int_d) (nat dec_d)
                    (if zm = ''L'' \<or> zm = ''l'' then ZL else ZT))"
proof -
  define n where "n = nat (int_d + dec_d)"
  define lead where "lead \<longleftrightarrow> zm = ''L'' \<or> zm = ''l''"
  define K where "K = keep_digits (int n) lead ds"
  have tot: "int_d + dec_d = int n" "nat int_d + nat dec_d = n" using nn by (simp_all add: n_def)
  obtain c r where ds: "ds = c # r" using ne by (cases ds) auto
  have cdig: "is_digit c" using dg ds by simp
  then have cm: "c \<noteq> CHR ''-''" using not_digit_minus by auto
  have tne: "t \<noteq> []" using t ne by simp
  have hdt: "(hd t = CHR ''-'') = neg" using t cm ds by simp
  have body: "(if neg then tl t else t) = ds" using t by simp
  have "\<not> is_space (hd t)"
    using t cdig ds by (auto simp: is_space_def dest: digit_not_space)
  moreover have "last t = last ds" using t ne by simp
  then have "\<not> is_space (last t)" using dg ne by (simp add: digit_not_space)
  ultimately have st: "strip t = t" using tne by (intro strip_id)
  have nodot: "CHR ''.'' \<notin> set t"
    using t dg not_digit_point by auto
  have Klen: "length K = nat (int_d + dec_d)"
    unfolding K_def using kept_digits_props(1) [OF dg, of n lead] by (simp add: n_def)
  have Kdig: "\<forall>c \<in> set K. is_digit c"
    unfolding K_def using kept_digits_props(2) [OF dg, of n lead] .
  have lhs: "parse_rs274x_coord (Some t) int_d dec_d zm = read_digits neg int_d dec_d K"
    using nn(3) unfolding parse_rs274x_coord_halves [OF st tne nodot] hdt body K_def lead_def
    by (simp add: tot(1))
  have negE: "(t \<noteq> [] \<and> hd t = CHR ''-'') = neg" using tne hdt by simp
  have padE: "(case (if zm = ''L'' \<or> zm = ''l'' then ZL else ZT) of
                 ZL \<Rightarrow> rjust0 n ds | ZT \<Rightarrow> ljust0 n ds) = (if lead then rjust0 else ljust0) n ds"
    by (simp add: lead_def)
  have rhs: "fixed_point_spec t (nat int_d) (nat dec_d) (if zm = ''L'' \<or> zm = ''l'' then ZL else ZT)
      = (if neg
                then - (real (digits_val (take (nat int_d) K))
                        + real (digits_val (drop (nat int_d) K)) / 10 ^ length (drop (nat int_d) K))
                else real (digits_val (take (nat int_d) K))
                        + real (digits_val (drop (nat int_d) K)) / 10 ^ length (drop (nat int_d) K))"
    unfolding fixed_point_spec_def Let_def negE body tot(2) padE K_def kept_digits by simp
  show ?thesis unfolding lhs rhs using Kdig Klen nn by (rule read_digits_value)
qed


text \<open>The whole digit string of a token read as an integer, with the sign of the token.\<close>

definition token_integer :: "string \<Rightarrow> real" where
  "token_integer token =
     (let neg = (token \<noteq> [] \<and> hd token = CHR ''-'');
          digits = (if neg then tl token else token)
      in if neg then - real (digits_val digits) else real (digits_val digits))"

lemma digit_token_cases:
  assumes "digit_token t"
  obtains neg ds where "ds \<noteq> []" "\<forall>c \<in> set ds. is_digit c"
    "t = (if neg then CHR ''-'' # ds else ds)"
proof (cases "t \<noteq> [] \<and> hd t = CHR ''-''")
  case True
  then have "t = CHR ''-'' # tl t" by (cases t) auto
  moreover have "tl t \<noteq> []" "\<forall>c \<in> set (tl t). is_digit c"
    using assms True by (simp_all add: digit_token_def Let_def)
  ultimately show ?thesis using that [of "tl t" True] by simp
next
  case False
  then have "t \<noteq> []" "\<forall>c \<in> set t. is_digit c"
    using assms by (auto simp: digit_token_def Let_def)
  then show ?thesis using that [of t False] by simp
qed

lemma decode_zero_format:
  assumes ne: "ds \<noteq> []" and dg: "\<forall>c \<in> set ds. is_digit c"
    and t: "t = (if neg then CHR ''-'' # ds else ds)"
  shows "parse_rs274x_coord (Some t) 0 0 zm = Inr (token_integer t)"
proof -
  obtain c r where ds: "ds = c # r" using ne by (cases ds) auto
  have cdig: "is_digit c" using dg ds by simp
  then have cm: "c \<noteq> CHR ''-''" using not_digit_minus by auto
  have tne: "t \<noteq> []" using t ne by simp
  have hdt: "(hd t = CHR ''-'') = neg" using t cm ds by simp
  have body: "(if neg then tl t else t) = ds" using t by simp
  have "\<not> is_space (hd t)"
    using t cdig ds by (auto simp: is_space_def dest: digit_not_space)
  moreover have "last t = last ds" using t ne by simp
  then have "\<not> is_space (last t)" using dg ne by (simp add: digit_not_space)
  ultimately have st: "strip t = t" using tne by (intro strip_id)
  have nodot: "CHR ''.'' \<notin> set t"
    using t dg not_digit_point by auto
  have mx: "max 1 (int (length ds)) = int (length ds)" using ne by (cases ds) auto
  have K: "keep_digits (int (length ds)) (zm = ''L'' \<or> zm = ''l'') ds = ds"
    by (simp add: keep_digits_def)
  have "parse_rs274x_coord (Some t) 0 0 zm = read_digits neg 0 0 ds"
    unfolding parse_rs274x_coord_halves [OF st tne nodot] hdt body by (simp add: mx K)
  also have "\<dots> = Inr (if neg then - real (digits_val ds) else real (digits_val ds))"
    using py_int_digits [OF ne dg] by (simp add: read_digits_def)
  also have "\<dots> = Inr (token_integer t)"
    using tne hdt body by (auto simp: token_integer_def Let_def)
  finally show ?thesis .
qed

lemma decode_point:
  assumes "CHR ''.'' \<in> set (strip u)"
  shows "parse_rs274x_coord (Some u) int_d dec_d zm = py_float (strip u)"
proof -
  have "strip u \<noteq> []" using assms by auto
  then show ?thesis using assms by (simp add: parse_rs274x_coord_def Let_def)
qed

text \<open>
  Claim C4, with the format guard of the code. For a digit token (an optional minus sign and
  at least one digit, no decimal point) and a format with \<open>int_digits + dec_digits \<ge> 1\<close>,
  both decoders return the value of the worded procedure: sign stripped, digits padded with
  zeros to \<open>int_digits + dec_digits\<close> on the left for L (Excellon: leading) and on the right for
  T (Excellon: trailing), the rightmost \<open>int_digits + dec_digits\<close> digits kept, split at
  \<open>int_digits\<close>. With \<open>int_digits + dec_digits = 0\<close> the decoders read the whole digit string as
  an integer instead. A token with a decimal point is read directly as a decimal number.
\<close>

theorem fixed_point_decoding:
  assumes "digit_token t" and "0 \<le> int_d" and "0 \<le> dec_d"
  shows "parse_rs274x_coord (Some t) int_d dec_d ''L''
           = Inr (if 1 \<le> int_d + dec_d then fixed_point_spec t (nat int_d) (nat dec_d) ZL
                  else token_integer t)
       \<and> parse_rs274x_coord (Some t) int_d dec_d ''T''
           = Inr (if 1 \<le> int_d + dec_d then fixed_point_spec t (nat int_d) (nat dec_d) ZT
                  else token_integer t)
       \<and> parse_fixed \<lparr>zero_suppression = ''leading'', format = (int_d, dec_d)\<rparr> (Some t)
           = Inr (if 1 \<le> int_d + dec_d then fixed_point_spec t (nat int_d) (nat dec_d) ZL
                  else token_integer t)
       \<and> parse_fixed \<lparr>zero_suppression = ''trailing'', format = (int_d, dec_d)\<rparr> (Some t)
           = Inr (if 1 \<le> int_d + dec_d then fixed_point_spec t (nat int_d) (nat dec_d) ZT
                  else token_integer t)
       \<and> (CHR ''.'' \<in> set (strip u) \<longrightarrow>
            parse_rs274x_coord (Some u) i d z = py_float (strip u)
          \<and> parse_fixed f (Some u) = py_float (strip u))"
proof -
  from assms(1) obtain neg ds where ds: "ds \<noteq> []" "\<forall>c \<in> set ds. is_digit c"
    "t = (if neg then CHR ''-'' # ds else ds)"
    by (rule digit_token_cases)
  have g: "parse_rs274x_coord (Some t) int_d dec_d zm
             = Inr (if 1 \<le> int_d + dec_d
                    then fixed_point_spec t (nat int_d) (nat dec_d)
                           (if zm = ''L'' \<or> zm = ''l'' then ZL else ZT)
                    else token_integer t)" for zm
  proof (cases "1 \<le> int_d + dec_d")
    case True
    then show ?thesis
      using decode_digits [OF ds(1,2) assms(2,3) True ds(3), of zm] by simp
  next
    case False
    then have "int_d = 0" "dec_d = 0" using assms(2,3) by simp_all
    then show ?thesis using decode_zero_format [OF ds, of zm] by simp
  qed
  have 1: "parse_rs274x_coord (Some t) int_d dec_d ''L''
           = Inr (if 1 \<le> int_d + dec_d then fixed_point_spec t (nat int_d) (nat dec_d) ZL
                  else token_integer t)"
    using g [of "''L''"] by simp
  have 2: "parse_rs274x_coord (Some t) int_d dec_d ''T''
           = Inr (if 1 \<le> int_d + dec_d then fixed_point_spec t (nat int_d) (nat dec_d) ZT
                  else token_integer t)"
    using g [of "''T''"] by simp
  have 3: "parse_fixed \<lparr>zero_suppression = ''leading'', format = (int_d, dec_d)\<rparr> (Some t)
           = parse_rs274x_coord (Some t) int_d dec_d ''L''"
    by (simp add: parse_fixed_as_gerber)
  have 4: "parse_fixed \<lparr>zero_suppression = ''trailing'', format = (int_d, dec_d)\<rparr> (Some t)
           = parse_rs274x_coord (Some t) int_d dec_d ''T''"
    by (simp add: parse_fixed_as_gerber)
  have 5: "parse_rs274x_coord (Some u) i d z = py_float (strip u)
          \<and> parse_fixed f (Some u) = py_float (strip u)" if "CHR ''.'' \<in> set (strip u)"
    using that by (simp add: parse_fixed_as_gerber decode_point)
  show ?thesis using 1 2 5 unfolding 3 4 by blast
qed

lemmas decoder_eval = digit_token_def fixed_point_spec_def token_integer_def rjust0_def ljust0_def
  digits_val_def digit_val_def is_digit_def is_space_def strip_def py_float_def split_sign_def
  Let_def

theorem fixed_point_decoding_witness:
  "digit_token ''-12345'' \<and> (0::int) \<le> 3 \<and> CHR ''.'' \<in> set (strip ''1.5'')
   \<and> parse_rs274x_coord (Some ''-12345'') 3 3 ''L'' = Inr (- (2469 / 200))
   \<and> parse_rs274x_coord (Some ''-12345'') 3 3 ''T'' = Inr (- (2469 / 20))
   \<and> parse_fixed \<lparr>zero_suppression = ''leading'', format = (3, 3)\<rparr> (Some ''-12345'')
        = Inr (- (2469 / 200))
   \<and> parse_fixed \<lparr>zero_suppression = ''trailing'', format = (3, 3)\<rparr> (Some ''-12345'')
        = Inr (- (2469 / 20))
   \<and> parse_rs274x_coord (Some ''1.5'') 3 3 ''L'' = Inr (3 / 2)
   \<and> parse_fixed \<lparr>zero_suppression = ''leading'', format = (3, 3)\<rparr> (Some ''1.5'') = Inr (3 / 2)"
  using fixed_point_decoding [of "''-12345''" 3 3 "''1.5''" 3 3 "''L''"
      "\<lparr>zero_suppression = ''leading'', format = (3, 3)\<rparr>"]
  by (simp add: decoder_eval)

text \<open>
  With the format \<open>(0, 0)\<close>, which the format statement \<^verbatim>\<open>%FSLAX00Y00*%\<close> sets, the token
  \<^verbatim>\<open>5\<close> is decoded as 5, where padding to and keeping \<open>0\<close> digits gives 0.
\<close>

theorem fixed_point_counterexample:
  "parse_rs274x_coord (Some ''5'') 0 0 ''L'' = Inr 5
   \<and> parse_fixed \<lparr>zero_suppression = ''leading'', format = (0, 0)\<rparr> (Some ''5'') = Inr 5
   \<and> fixed_point_spec ''5'' 0 0 ZL = 0"
  by (simp add: parse_rs274x_coord_def parse_fixed_def py_int_def decoder_eval)

section \<open>gerber\_parser.py: operations, apertures and the two polarity buckets\<close>

text \<open>
  Geometry is built by calls to the shapely library. The calls are kept as terms:
  \<^verbatim>\<open>Point(x, y).buffer(r)\<close>, \<^verbatim>\<open>Polygon(pts)\<close>, \<^verbatim>\<open>LineString(pts).buffer(r)\<close>,
  \<^verbatim>\<open>rotate(g, rot, origin=o, use_radians=False)\<close>, \<^verbatim>\<open>unary_union(gs)\<close> and
  \<^verbatim>\<open>a.difference(b)\<close>.
\<close>

datatype geom =
    Point_buffer point real
  | Polygon "point list"
  | LineString_buffer "point list" real
  | Rotate geom real point
  | Unary_union "geom list"
  | Difference geom geom

text \<open>
  What the parser asks of the library: whether \<^verbatim>\<open>Polygon(pts)\<close> raises, \<^verbatim>\<open>g.is_empty\<close>,
  \<^verbatim>\<open>g.is_valid\<close>, \<^verbatim>\<open>g.area\<close>, whether \<^verbatim>\<open>a.difference(b)\<close> raises, and \<^verbatim>\<open>g.bounds\<close>
  (\<open>None\<close> when it raises). The parser is a function of these answers.
\<close>

record shapely =
  sh_polygon_raises :: "point list \<Rightarrow> bool"
  sh_is_empty :: "geom \<Rightarrow> bool"
  sh_is_valid :: "geom \<Rightarrow> bool"
  sh_area :: "geom \<Rightarrow> real"
  sh_difference_raises :: "geom \<Rightarrow> geom \<Rightarrow> bool"
  sh_bounds :: "geom \<Rightarrow> (real \<times> real \<times> real \<times> real) option"

text \<open>
  An entry of the aperture table: \<^verbatim>\<open>(shape, a, b)\<close> with a one-letter shape, or
  \<^verbatim>\<open>("MACRO", name, params)\<close>.
\<close>

datatype ap_def = Std char real real | Macro string "real list"

text \<open>
  \<^verbatim>\<open>pad_from_ap(ap_def, x, y, macros)\<close>. The table \<open>macros\<close> gives the type of a macro that
  \<^verbatim>\<open>_parse_macro_defs\<close> has recognised.
\<close>

definition rect_points :: "real \<Rightarrow> real \<Rightarrow> real \<Rightarrow> real \<Rightarrow> point list" where
  "rect_points x y a b =
     [(x - a / 2, y - b / 2), (x + a / 2, y - b / 2), (x + a / 2, y + b / 2), (x - a / 2, y + b / 2)]"

definition pad_from_ap :: "ap_def option \<Rightarrow> real \<Rightarrow> real \<Rightarrow> (string \<rightharpoonup> string) \<Rightarrow> geom option" where
  "pad_from_ap ap x y macros =
     (case ap of
        None \<Rightarrow> None
      | Some (Std shape a b) \<Rightarrow>
          if shape = CHR ''C'' then Some (Point_buffer (x, y) (a / 2))
          else if shape = CHR ''R'' then Some (Polygon (rect_points x y a b))
          else if shape = CHR ''O'' then
            let r = min a b / 2
            in if b < a
               then Some (LineString_buffer [(x - (a / 2 - r), y), (x + (a / 2 - r), y)] r)
               else Some (LineString_buffer [(x, y - (b / 2 - r)), (x, y + (b / 2 - r))] r)
          else None
      | Some (Macro mname params) \<Rightarrow>
          if macros mname = Some ''center_rect_21'' then
            let w = (if 0 < length params then params ! 0 else 0);
                h = (if 1 < length params then params ! 1 else w);
                rot = (if 2 < length params then params ! 2 else 0);
                poly = Polygon (rect_points x y w h)
            in Some (if 1 / 10 ^ 9 < \<bar>rot\<bar> then Rotate poly rot (x, y) else poly)
          else None)"

text \<open>
  The lines of a file, each given by the first test of the loop that it passes: blank or
  comment; units; format statement; \<^verbatim>\<open>LPD\<close>; \<^verbatim>\<open>LPC\<close>; \<^verbatim>\<open>G36\<close>; \<^verbatim>\<open>G37\<close>; a standard
  aperture definition with the groups of its regular expression; a macro aperture
  definition with its groups; an aperture selection \<^verbatim>\<open>Dnn*\<close>; and every other line, with
  the groups of the searches for \<^verbatim>\<open>X(-?[\d\.]+)\<close> and \<^verbatim>\<open>Y(-?[\d\.]+)\<close> (\<open>None\<close> without a
  match) and the operation code that ends the line.
\<close>

datatype opcode = D01 | D02 | D03 | No_opcode

datatype gerber_line =
    Skipped
  | Units_line string
  | FS_line string string int int int int
  | LPD_line
  | LPC_line
  | G36_line
  | G37_line
  | ADD_std_line int char string "string option"
  | ADD_macro_line int string string "string option" "string option"
  | Select_line int
  | Coord_line "string option" "string option" opcode

text \<open>The messages of \<^verbatim>\<open>_warn\<close>, with the line number where the message has one.\<close>

datatype warning =
    Region_polygon_failed nat
  | Invalid_ADD_params nat
  | Invalid_macro_ADD_params nat
  | Undefined_macro nat string int
  | Invalid_coordinate_line nat
  | Flash_undefined_aperture nat int
  | Draw_undefined_aperture nat int
  | No_explicit_units
  | No_FS_format
  | No_aperture_definitions
  | Very_large_extents
  | Very_small_extents

datatype gerber_error = GerberParseError warning | FileNotFoundError

text \<open>
  The dataclass \<^verbatim>\<open>GerberFull\<close>, and the local variables of \<^verbatim>\<open>parse_gerber_full\<close>: the
  fields of the result are the locals of the same names (\<open>fs_x\<close> is \<^verbatim>\<open>(x_int, x_dec)\<close>, \<open>fs_y\<close>
  is \<^verbatim>\<open>(y_int, y_dec)\<close>), the rest of the locals extends them, with the warnings logged so
  far.
\<close>

record gerber_full =
  aps :: "int \<rightharpoonup> ap_def"
  macros :: "string \<rightharpoonup> string"
  flashes :: "(int \<times> real \<times> real) list"
  tracks :: "(int \<times> point \<times> point) list"
  dark_geoms :: "geom list"
  clear_geoms :: "geom list"
  units :: string
  fs_zero_mode :: string
  fs_coord_mode :: string
  fs_x :: "int \<times> int"
  fs_y :: "int \<times> int"

record parser = gerber_full +
  cur :: "int option"
  prev :: "point option"
  unit_scale :: real
  saw_units :: bool
  saw_fs :: bool
  polarity :: string
  in_region :: bool
  region_contours :: "point list list"
  region_current :: "point list option"
  line_no :: nat
  warnings :: "warning list"

definition initial_parser :: "(string \<rightharpoonup> string) \<Rightarrow> parser" where
  "initial_parser ms =
     \<lparr>aps = Map.empty, macros = ms, flashes = [], tracks = [], dark_geoms = [], clear_geoms = [],
      units = ''mm'', fs_zero_mode = ''L'', fs_coord_mode = ''A'', fs_x = (3, 6), fs_y = (3, 6),
      cur = None, prev = None, unit_scale = 1, saw_units = False, saw_fs = False,
      polarity = ''D'', in_region = False, region_contours = [], region_current = None,
      line_no = 0, warnings = []\<rparr>"

text \<open>\<^verbatim>\<open>_warn(lg, msg, strict=strict)\<close>: the message is logged, and raised in strict mode.\<close>

definition warn :: "bool \<Rightarrow> warning \<Rightarrow> parser \<Rightarrow> gerber_error + parser" where
  "warn strict w st =
     (if strict then Inl (GerberParseError w) else Inr (st\<lparr>warnings := warnings st @ [w]\<rparr>))"

text \<open>\<^verbatim>\<open>(dark_geoms if polarity == "D" else clear_geoms).append(g)\<close>.\<close>

definition bucket_append :: "geom \<Rightarrow> parser \<Rightarrow> parser" where
  "bucket_append g st =
     (if polarity st = ''D'' then st\<lparr>dark_geoms := dark_geoms st @ [g]\<rparr>
      else st\<lparr>clear_geoms := clear_geoms st @ [g]\<rparr>)"

text \<open>\<^verbatim>\<open>if region_current and len(region_current) >= 3: region_contours.append(region_current)\<close>.\<close>

definition flush_contour :: "parser \<Rightarrow> parser" where
  "flush_contour st =
     (case region_current st of
        Some pts \<Rightarrow> if 3 \<le> length pts then st\<lparr>region_contours := region_contours st @ [pts]\<rparr>
                    else st
      | None \<Rightarrow> st)"

text \<open>
  The loop over the contours at \<^verbatim>\<open>G37\<close>: the polygons that are kept, and the warnings for
  the polygons that could not be built.
\<close>

fun region_polys ::
  "shapely \<Rightarrow> bool \<Rightarrow> nat \<Rightarrow> point list list \<Rightarrow> geom list \<Rightarrow> warning list
     \<Rightarrow> gerber_error + (geom list \<times> warning list)" where
  "region_polys lib strict n [] polys ws = Inr (polys, ws)"
| "region_polys lib strict n (pts # rest) polys ws =
     (if length pts < 3 then region_polys lib strict n rest polys ws
      else
        let pts' = (if hd pts \<noteq> last pts then pts @ [hd pts] else pts)
        in if sh_polygon_raises lib pts' then
             if strict then Inl (GerberParseError (Region_polygon_failed n))
             else region_polys lib strict n rest polys (ws @ [Region_polygon_failed n])
           else
             let poly = Polygon pts'
             in if \<not> sh_is_empty lib poly \<and> sh_is_valid lib poly \<and> 0 < sh_area lib poly
                then region_polys lib strict n rest (polys @ [poly]) ws
                else region_polys lib strict n rest polys ws)"

definition end_region :: "shapely \<Rightarrow> bool \<Rightarrow> parser \<Rightarrow> gerber_error + parser" where
  "end_region lib strict st0 =
     (let st = flush_contour st0
      in case region_polys lib strict (line_no st) (region_contours st) [] (warnings st) of
           Inl e \<Rightarrow> Inl e
         | Inr (polys, ws) \<Rightarrow>
             let st1 = st\<lparr>warnings := ws\<rparr>;
                 st2 = (if polys \<noteq> [] then bucket_append (Unary_union polys) st1 else st1)
             in Inr (st2\<lparr>in_region := False, region_contours := [], region_current := None,
                        prev := None\<rparr>))"

text \<open>
  The two aperture definitions. \<^verbatim>\<open>float\<close> of a group may raise; a group that did not match
  is \<open>None\<close>.
\<close>

definition float_group :: "string option \<Rightarrow> py_exn + real option" where
  "float_group g = (case g of None \<Rightarrow> Inr None
                    | Some s \<Rightarrow> (case py_float s of Inl e \<Rightarrow> Inl e | Inr v \<Rightarrow> Inr (Some v)))"

definition add_std ::
  "bool \<Rightarrow> int \<Rightarrow> char \<Rightarrow> string \<Rightarrow> string option \<Rightarrow> parser \<Rightarrow> gerber_error + parser" where
  "add_std strict ap_id shape g3 g4 st =
     (case py_float g3 of
        Inl e \<Rightarrow> warn strict (Invalid_ADD_params (line_no st)) st
      | Inr a \<Rightarrow>
          (case py_float (case g4 of Some s \<Rightarrow> s | None \<Rightarrow> g3) of
             Inl e \<Rightarrow> warn strict (Invalid_ADD_params (line_no st)) st
           | Inr b \<Rightarrow>
               Inr (st\<lparr>aps := (aps st)(ap_id \<mapsto> Std shape (a * unit_scale st) (b * unit_scale st))\<rparr>)))"

definition add_macro ::
  "bool \<Rightarrow> int \<Rightarrow> string \<Rightarrow> string \<Rightarrow> string option \<Rightarrow> string option \<Rightarrow> parser
     \<Rightarrow> gerber_error + parser" where
  "add_macro strict ap_id mname g3 g4 g5 st =
     (case py_float g3 of
        Inl e \<Rightarrow> warn strict (Invalid_macro_ADD_params (line_no st)) st
      | Inr p1 \<Rightarrow>
          (case float_group g4 of
             Inl e \<Rightarrow> warn strict (Invalid_macro_ADD_params (line_no st)) st
           | Inr p2 \<Rightarrow>
               (case float_group g5 of
                  Inl e \<Rightarrow> warn strict (Invalid_macro_ADD_params (line_no st)) st
                | Inr p3 \<Rightarrow>
                    let params = [p1 * unit_scale st]
                          @ (case p2 of Some v \<Rightarrow> [v * unit_scale st] | None \<Rightarrow> [])
                          @ (case p3 of Some v \<Rightarrow> [v] | None \<Rightarrow> []);
                        st1 = st\<lparr>aps := (aps st)(ap_id \<mapsto> Macro mname params)\<rparr>
                    in if mname \<notin> dom (macros st)
                       then warn strict (Undefined_macro (line_no st) mname ap_id) st1
                       else Inr st1)))"

text \<open>
  The coordinates of a line: both tokens decoded under the format of the file and scaled;
  in incremental mode, with a previous point, they are offsets from it.
\<close>

definition decode_xy :: "parser \<Rightarrow> string \<Rightarrow> string \<Rightarrow> py_exn + point" where
  "decode_xy st xt yt =
     (case parse_rs274x_coord (Some xt) (fst (fs_x st)) (snd (fs_x st)) (fs_zero_mode st) of
        Inl e \<Rightarrow> Inl e
      | Inr x0 \<Rightarrow>
          (case parse_rs274x_coord (Some yt) (fst (fs_y st)) (snd (fs_y st)) (fs_zero_mode st) of
             Inl e \<Rightarrow> Inl e
           | Inr y0 \<Rightarrow>
               let x = x0 * unit_scale st;
                   y = y0 * unit_scale st
               in case prev st of
                    Some p \<Rightarrow>
                      if fs_coord_mode st = ''I'' \<or> fs_coord_mode st = ''i''
                      then Inr (fst p + x, snd p + y)
                      else Inr (x, y)
                  | None \<Rightarrow> Inr (x, y)))"

text \<open>The operation \<^verbatim>\<open>D03\<close> outside a region, with the current aperture \<open>c\<close>.\<close>

definition flash :: "shapely \<Rightarrow> bool \<Rightarrow> int \<Rightarrow> real \<Rightarrow> real \<Rightarrow> parser \<Rightarrow> gerber_error + parser" where
  "flash lib strict c x y st =
     (case (if c \<notin> dom (aps st) then warn strict (Flash_undefined_aperture (line_no st) c) st
            else Inr st) of
        Inl e \<Rightarrow> Inl e
      | Inr st1 \<Rightarrow>
          let st2 = st1\<lparr>flashes := flashes st1 @ [(c, x, y)]\<rparr>;
              ap = aps st2 c;
              g = (if ap \<noteq> None then pad_from_ap ap x y (macros st2) else None);
              st3 = (case g of
                       Some shape \<Rightarrow> if \<not> sh_is_empty lib shape then bucket_append shape st2 else st2
                     | None \<Rightarrow> st2)
          in Inr (st3\<lparr>prev := Some (x, y)\<rparr>))"

text \<open>The operation \<^verbatim>\<open>D01\<close> outside a region, from the previous point \<open>p\<close>.\<close>

definition draw :: "shapely \<Rightarrow> bool \<Rightarrow> int \<Rightarrow> point \<Rightarrow> real \<Rightarrow> real \<Rightarrow> parser \<Rightarrow> gerber_error + parser" where
  "draw lib strict c p x y st =
     (case (if c \<notin> dom (aps st) then warn strict (Draw_undefined_aperture (line_no st) c) st
            else Inr st) of
        Inl e \<Rightarrow> Inl e
      | Inr st1 \<Rightarrow>
          let st2 = st1\<lparr>tracks := tracks st1 @ [(c, p, (x, y))]\<rparr>;
              st3 = (case aps st2 c of
                       Some (Std shape a b) \<Rightarrow>
                         let width = (if shape = CHR ''C'' then a else min a b)
                         in if 0 < width then
                              let gg = LineString_buffer [p, (x, y)] (width / 2)
                              in if \<not> sh_is_empty lib gg then bucket_append gg st2 else st2
                            else st2
                     | _ \<Rightarrow> st2)
          in Inr (st3\<lparr>prev := Some (x, y)\<rparr>))"

text \<open>A line with coordinates: inside a region, then the three operations.\<close>

definition coord_line ::
  "shapely \<Rightarrow> bool \<Rightarrow> string option \<Rightarrow> string option \<Rightarrow> opcode \<Rightarrow> parser \<Rightarrow> gerber_error + parser" where
  "coord_line lib strict xm ym op st =
     (case (xm, ym) of
        (Some xt, Some yt) \<Rightarrow>
          (case decode_xy st xt yt of
             Inl e \<Rightarrow> warn strict (Invalid_coordinate_line (line_no st)) st
           | Inr (x, y) \<Rightarrow>
               if in_region st \<and> op = D02 then
                 Inr ((flush_contour st)\<lparr>region_current := Some [(x, y)], prev := Some (x, y)\<rparr>)
               else if in_region st \<and> op = D01 then
                 Inr (st\<lparr>region_current :=
                            Some ((case region_current st of None \<Rightarrow> [] | Some pts \<Rightarrow> pts)
                                  @ [(x, y)]),
                         prev := Some (x, y)\<rparr>)
               else if in_region st \<and> op = D03 then Inr (st\<lparr>prev := Some (x, y)\<rparr>)
               else if op = D03 \<and> cur st \<noteq> None then flash lib strict (the (cur st)) x y st
               else if op = D01 \<and> prev st \<noteq> None \<and> cur st \<noteq> None then
                 draw lib strict (the (cur st)) (the (prev st)) x y st
               else if op = D02 then Inr (st\<lparr>prev := Some (x, y)\<rparr>)
               else Inr st)
      | _ \<Rightarrow> Inr st)"

text \<open>The body of the loop over the lines.\<close>

definition step :: "shapely \<Rightarrow> bool \<Rightarrow> parser \<Rightarrow> gerber_line \<Rightarrow> gerber_error + parser" where
  "step lib strict st0 l =
     (let st = st0\<lparr>line_no := line_no st0 + 1\<rparr>
      in case l of
           Skipped \<Rightarrow> Inr st
         | Units_line u \<Rightarrow>
             Inr (st\<lparr>units := u, unit_scale := (if u = ''inch'' then 254 / 10 else 1),
                     saw_units := True\<rparr>)
         | FS_line zm cm xi xd yi yd \<Rightarrow>
             Inr (st\<lparr>fs_zero_mode := zm, fs_coord_mode := cm, fs_x := (xi, xd), fs_y := (yi, yd),
                     saw_fs := True\<rparr>)
         | LPD_line \<Rightarrow> Inr (st\<lparr>polarity := ''D''\<rparr>)
         | LPC_line \<Rightarrow> Inr (st\<lparr>polarity := ''C''\<rparr>)
         | G36_line \<Rightarrow>
             Inr (st\<lparr>in_region := True, region_contours := [], region_current := None,
                     prev := None\<rparr>)
         | G37_line \<Rightarrow> end_region lib strict st
         | ADD_std_line ap_id shape g3 g4 \<Rightarrow> add_std strict ap_id shape g3 g4 st
         | ADD_macro_line ap_id mname g3 g4 g5 \<Rightarrow> add_macro strict ap_id mname g3 g4 g5 st
         | Select_line n \<Rightarrow> Inr (st\<lparr>cur := Some n\<rparr>)
         | Coord_line xm ym op \<Rightarrow> coord_line lib strict xm ym op st)"

fun run_lines :: "shapely \<Rightarrow> bool \<Rightarrow> parser \<Rightarrow> gerber_line list \<Rightarrow> gerber_error + parser" where
  "run_lines lib strict st [] = Inr st"
| "run_lines lib strict st (l # ls) =
     (case step lib strict st l of
        Inl e \<Rightarrow> Inl e
      | Inr st' \<Rightarrow> run_lines lib strict st' ls)"

text \<open>
  The warnings after the loop, none of them raised: missing units, format and apertures,
  and the extents of the image, whose computation is abandoned when the library raises.
\<close>

definition extents_warnings :: "shapely \<Rightarrow> parser \<Rightarrow> warning list" where
  "extents_warnings lib st =
     (let allg = (if dark_geoms st \<noteq> [] then [Unary_union (dark_geoms st)] else [])
               @ (if clear_geoms st \<noteq> [] then [Unary_union (clear_geoms st)] else [])
      in if allg = [] then []
         else case sh_bounds lib (Unary_union allg) of
                None \<Rightarrow> []
              | Some (minx, miny, maxx, maxy) \<Rightarrow>
                  let w = maxx - minx;
                      h = maxy - miny
                  in (if 2000 < w \<or> 2000 < h then [Very_large_extents] else [])
                   @ (if w < 1 / 100 \<or> h < 1 / 100 then [Very_small_extents] else []))"

definition final_warnings :: "shapely \<Rightarrow> parser \<Rightarrow> warning list" where
  "final_warnings lib st =
     (if \<not> saw_units st then [No_explicit_units] else [])
     @ (if \<not> saw_fs st then [No_FS_format] else [])
     @ (if aps st = Map.empty then [No_aperture_definitions] else [])
     @ extents_warnings lib st"

text \<open>
  \<^verbatim>\<open>parse_gerber_full(fn, strict=strict)\<close>. The file is the list of its lines, \<open>None\<close> when it
  does not exist, with the table that \<^verbatim>\<open>_parse_macro_defs\<close> builds from it. The result comes
  with the log.
\<close>

definition parse_gerber_full ::
  "shapely \<Rightarrow> bool \<Rightarrow> (string \<rightharpoonup> string) \<Rightarrow> gerber_line list option
     \<Rightarrow> gerber_error + (gerber_full \<times> warning list)" where
  "parse_gerber_full lib strict ms file =
     (case file of
        None \<Rightarrow> Inl FileNotFoundError
      | Some ls \<Rightarrow>
          (case run_lines lib strict (initial_parser ms) ls of
             Inl e \<Rightarrow> Inl e
           | Inr st \<Rightarrow> Inr (gerber_full.truncate st, warnings st @ final_warnings lib st)))"

text \<open>\<^verbatim>\<open>_compose_dark_clear\<close> and \<^verbatim>\<open>load_copper\<close>.\<close>

definition compose_dark_clear :: "shapely \<Rightarrow> geom list \<Rightarrow> geom list \<Rightarrow> geom" where
  "compose_dark_clear lib dark clear =
     (let dark_u = Unary_union dark
      in if clear = [] then dark_u
         else
           let clear_u = Unary_union clear
           in if sh_difference_raises lib dark_u clear_u then dark_u
              else Difference dark_u clear_u)"

definition load_copper ::
  "shapely \<Rightarrow> bool \<Rightarrow> (string \<rightharpoonup> string) \<Rightarrow> gerber_line list option \<Rightarrow> gerber_error + geom" where
  "load_copper lib strict ms file =
     (case parse_gerber_full lib strict ms file of
        Inl e \<Rightarrow> Inl e
      | Inr (gf, ws) \<Rightarrow> Inr (compose_dark_clear lib (dark_geoms gf) (clear_geoms gf)))"

section \<open>Properties of the tool-change sequence\<close>

text \<open>
  The five lines before the spindle start and the lines after it, as the sequence writes
  them whatever the spindle speed is.
\<close>

definition toolchange_before :: "job_config \<Rightarrow> string \<Rightarrow> string list" where
  "toolchange_before cfg message =
     [nl @ ''G0 Z'' @ fmt_f 3 (toolchange_z cfg) @ nl,
      ''M5'' @ nl,
      ''G0 X'' @ fmt_f 3 (park_x cfg) @ '' Y'' @ fmt_f 3 (park_y cfg) @ nl,
      ''; '' @ message @ nl,
      ''M0'' @ nl]"

definition toolchange_after :: "job_config \<Rightarrow> string list" where
  "toolchange_after cfg =
     (if 0 < spindle_warmup_s cfg then [''G4 P'' @ fmt_f 3 (spindle_warmup_s cfg) @ nl] else [])
     @ [''G0 Z'' @ fmt_f 3 (travel_z cfg) @ nl]"

text \<open>
  C10. In every tool-change sequence the spindle-on line is \<^verbatim>\<open>S<rpm> M3\<close> when the bit's
  rpm is greater than 0, and a bare \<^verbatim>\<open>M3\<close> with no speed word when the rpm is 0,
  negative or missing. In both cases the same surrounding lines are written: raise to the
  tool-change Z, \<^verbatim>\<open>M5\<close>, rapid to the park position, the comment, \<^verbatim>\<open>M0\<close>, then after
  the spindle line the optional \<^verbatim>\<open>G4\<close> dwell and the rapid to the travel Z.
\<close>

theorem toolchange_spindle_line:
  "toolchange_sequence cfg out b message =
     out @ toolchange_before cfg message
       @ [case rpm b of
            None \<Rightarrow> ''M3'' @ nl
          | Some r \<Rightarrow> if 0 < r then ''S'' @ str_int r @ '' M3'' @ nl else ''M3'' @ nl]
       @ toolchange_after cfg"
  by (cases "rpm b")
     (simp_all add: toolchange_sequence_def toolchange_before_def toolchange_after_def o_write_def
        get_toolchange_z_def get_park_xy_def get_spindle_warmup_s_def get_travel_z_def Let_def)

end
